theory Spec2Isabelle
  imports Main "HOL-Library.Word" "HOL-Library.Multiset" "HOL-Library.List_Lexorder"
    "HOL-Library.Char_ord"
begin

section \<open>The graph endpoint of the REST API (api/v1/graph.go)\<close>

text \<open>
  The handlers of \<^verbatim>\<open>graphEndpoint\<close> are embedded as functions from the request and the
  collaborators they call (the graph manager \<^verbatim>\<open>api.GM\<close>, the transaction, the JSON decoder)
  to the response they write. A response writer that was never written to answers with
  status 200 and an empty body; \<^verbatim>\<open>http.Error\<close> fixes the status and writes one line of
  text. A run-time panic of the handler (a nil dereference, an index out of range, a slice
  capacity out of range) is the outcome \<open>Panicked\<close>: the server then writes no response.
\<close>

subsection \<open>Data\<close>

type_synonym 'v attrs = "string \<rightharpoonup> 'v"

datatype 'v node = GraphNode (Data: "'v attrs")

datatype 'v edge = GraphEdge (EdgeNode: "'v node")

definition NewGraphNodeFromMap :: "'v attrs \<Rightarrow> 'v node" where
  "NewGraphNodeFromMap d = GraphNode d"

definition NewGraphEdgeFromNode :: "'v node \<Rightarrow> 'v edge" where
  "NewGraphEdgeFromNode n = GraphEdge n"

definition EdgeData :: "'v edge \<Rightarrow> 'v attrs" where
  "EdgeData e = Data (EdgeNode e)"

text \<open>
  Modelled from the spec: the constant \<^verbatim>\<open>data.NodeKey\<close>, the name of the attribute that
  holds the key of a node or edge (the attribute objects of the spec's scenarios carry
  it as \<^verbatim>\<open>"key"\<close>).
\<close>

definition NodeKey :: string where
  "NodeKey = ''key''"

subsection \<open>Responses\<close>

definition StatusOK :: nat where
  "StatusOK = 200"

definition StatusBadRequest :: nat where
  "StatusBadRequest = 400"

definition StatusInternalServerError :: nat where
  "StatusInternalServerError = 500"

definition client_error :: "nat \<Rightarrow> bool" where
  "client_error s = (400 \<le> s \<and> s < 500)"

definition server_error :: "nat \<Rightarrow> bool" where
  "server_error s = (500 \<le> s \<and> s < 600)"

datatype 'v json = JObject "'v attrs" | JArray "'v json list"

datatype 'v payload = NoBody | ErrorText string | Json "'v json"

record 'v response =
  status :: nat
  headers :: "(string \<times> string) list"
  body :: "'v payload"

datatype 'r outcome = Responded 'r | Panicked

text \<open>
  \<^verbatim>\<open>http.Error\<close> of the standard library: the status and the message. The headers it
  sets for its own text (the content type) are left out.
\<close>

definition http_Error :: "string \<Rightarrow> nat \<Rightarrow> 'v response" where
  "http_Error msg code = \<lparr>status = code, headers = [], body = ErrorText msg\<rparr>"

definition HTTPHeaderTotalCount :: string where
  "HTTPHeaderTotalCount = ''X-Total-Count''"

text \<open>The value of a header, as a client reads it: the first entry of that name.\<close>

definition header :: "'v response \<Rightarrow> string \<Rightarrow> string option" where
  "header r name = map_of (headers r) name"

text \<open>\<^verbatim>\<open>strconv.FormatUint(n, 10)\<close>: the decimal digits of an unsigned 64-bit number.\<close>

definition digits :: string where
  "digits = ''0123456789abcdefghijklmnopqrstuvwxyz''"

definition digit :: "nat \<Rightarrow> char" where
  "digit d = digits ! d"

function decimal :: "nat \<Rightarrow> string" where
  "decimal n = (if n < 10 then [digit n] else decimal (n div 10) @ [digit (n mod 10)])"
  by pat_completeness auto
termination
  by (relation "measure (\<lambda>n. n)") auto

definition FormatUint :: "64 word \<Rightarrow> string" where
  "FormatUint n = decimal (unat n)"

subsection \<open>Requests\<close>

text \<open>
  A query parameter as the URL carries it: absent, a decimal integer, or some other text.
  The body of a request is kept abstract; the JSON decoder is a collaborator (below).
\<close>

datatype qparam = NotGiven | Given int | Garbled

record 'b request =
  Query :: "string \<Rightarrow> qparam"
  Body :: 'b

text \<open>
  Modelled from the spec: \<^verbatim>\<open>checkResources\<close>, which is not among the sources. A path whose
  number of segments is outside the bounds of the endpoint fails with a client error (the
  handler then stops); the text of the message for too many segments is not specified.
\<close>

definition checkResources :: "string list \<Rightarrow> nat \<Rightarrow> nat \<Rightarrow> string \<Rightarrow> 'v response option" where
  "checkResources resources requiredMin requiredMax errorMsg =
     (if length resources < requiredMin then Some (http_Error errorMsg StatusBadRequest)
      else if length resources > requiredMax
      then Some (http_Error ''Invalid resource specification'' StatusBadRequest)
      else None)"

text \<open>
  Modelled from the spec: \<^verbatim>\<open>queryParamPosNum\<close>, which is not among the sources. The
  parameters \<^verbatim>\<open>limit\<close> and \<^verbatim>\<open>offset\<close> are optional non-negative integers; the handler's
  comments fix the result for an absent parameter as -1; a value that is not a
  non-negative number of the 64-bit \<^verbatim>\<open>int\<close> type is a client error.
\<close>

definition queryParamPosNum :: "'b request \<Rightarrow> string \<Rightarrow> 'v response + int" where
  "queryParamPosNum r param =
     (case Query r param of
        NotGiven \<Rightarrow> Inr (- 1)
      | Given n \<Rightarrow>
          if 0 \<le> n \<and> n < 2 ^ 63 then Inr n
          else Inl (http_Error ''Invalid parameter value'' StatusBadRequest)
      | Garbled \<Rightarrow> Inl (http_Error ''Invalid parameter value'' StatusBadRequest))"

subsection \<open>Machine integers and slices\<close>

text \<open>
  \<^verbatim>\<open>int\<close> is the 64-bit signed integer; its addition and subtraction wrap around.
\<close>

definition wrap64 :: "int \<Rightarrow> int" where
  "wrap64 x = (x + 2 ^ 63) mod 2 ^ 64 - 2 ^ 63"

text \<open>
  \<^verbatim>\<open>make([]interface{}, 0, cap)\<close> panics when the capacity is negative or when its size in
  bytes (16 for each interface value) overflows the address type or exceeds the largest
  allocation \<open>maxAlloc\<close> of the run-time system, which is a parameter of the platform.
\<close>

definition makeslice_ok :: "int \<Rightarrow> int \<Rightarrow> bool" where
  "makeslice_ok maxAlloc cap = (0 \<le> cap \<and> 16 * cap < 2 ^ 64 \<and> 16 * cap \<le> maxAlloc)"

subsection \<open>The graph manager\<close>

text \<open>
  Modelled from the spec: the forward-only key iterator of the graph manager, which is
  not among the sources. It holds the keys that remain; each carries the error, if any,
  that \<^verbatim>\<open>Next\<close> leaves in \<^verbatim>\<open>LastError\<close> when it steps over that key. The handler calls
  \<^verbatim>\<open>Next\<close> only after \<^verbatim>\<open>HasNext\<close> has answered true.
\<close>

record iterator =
  pending :: "(string \<times> string option) list"
  LastError :: "string option"

definition HasNext :: "iterator \<Rightarrow> bool" where
  "HasNext it = (pending it \<noteq> [])"

definition Next :: "iterator \<Rightarrow> string \<times> iterator" where
  "Next it =
     (case pending it of
        [] \<Rightarrow> ([], it)
      | (key, err) # rest \<Rightarrow> (key, \<lparr>pending = rest, LastError = err\<rparr>))"

text \<open>
  The calls of the handler into \<^verbatim>\<open>api.GM\<close>. A call returns an error (\<open>Inl\<close>) or a value,
  which may be nil (\<open>None\<close>).
\<close>

record 'v graph_manager =
  NodeKeyIterator :: "string \<Rightarrow> string \<Rightarrow> string + iterator option"
  FetchNode :: "string \<Rightarrow> string \<Rightarrow> string \<Rightarrow> string + 'v node option"
  FetchEdge :: "string \<Rightarrow> string \<Rightarrow> string \<Rightarrow> string + 'v edge option"
  FetchNodePart :: "string \<Rightarrow> string \<Rightarrow> string \<Rightarrow> string list \<Rightarrow> string + 'v node option"
  NodeCount :: "string \<Rightarrow> 64 word"
  TraverseMulti ::
    "string \<Rightarrow> string \<Rightarrow> string \<Rightarrow> string \<Rightarrow> bool \<Rightarrow>
       string + ('v node list option \<times> 'v edge list option)"

subsection \<open>HandleGET: the list of the nodes of a kind\<close>

text \<open>
  The loop that skips \<open>offset\<close> keys (lines 266 to 276). It returns the iterator as the
  loop left it and the error response, if the loop wrote one.
\<close>

function skip_loop :: "int \<Rightarrow> int \<Rightarrow> iterator \<Rightarrow> 'v response option \<times> iterator" where
  "skip_loop i offset it =
     (if i < offset then
        if \<not> HasNext it
        then (Some (http_Error ''Offset exceeds available nodes'' StatusInternalServerError), it)
        else
          let it' = snd (Next it) in
          (case LastError it' of
             Some e \<Rightarrow> (Some (http_Error e StatusInternalServerError), it')
           | None \<Rightarrow> skip_loop (i + 1) offset it')
      else (None, it))"
  by pat_completeness auto
termination
  by (relation "measure (\<lambda>(i, offset, it). nat (offset - i))") auto

declare skip_loop.simps [simp del]

text \<open>
  The loop that fetches the nodes of the page (lines 291 to 314): it ends with the rows,
  with an error response, or in a panic when the manager returns neither a node nor an
  error (\<^verbatim>\<open>node.Data()\<close> on nil).
\<close>

datatype ('v, 'a) loop_result = Done 'a | Failed "'v response" | Crashed

function yield_loop ::
  "'v graph_manager \<Rightarrow> string \<Rightarrow> string \<Rightarrow> int \<Rightarrow> int \<Rightarrow> int \<Rightarrow> iterator \<Rightarrow> 'v attrs list \<Rightarrow>
     ('v, 'v attrs list) loop_result" where
  "yield_loop GM part kind limit offset i it data =
     (if HasNext it then
        if limit \<noteq> - 1 \<and> i > wrap64 (wrap64 (offset + limit) - 1) then Done data
        else
          let key = fst (Next it); it' = snd (Next it) in
          (case LastError it' of
             Some e \<Rightarrow> Failed (http_Error e StatusInternalServerError)
           | None \<Rightarrow>
               (case FetchNode GM part key kind of
                  Inl e \<Rightarrow> Failed (http_Error e StatusInternalServerError)
                | Inr None \<Rightarrow> Crashed
                | Inr (Some node) \<Rightarrow>
                    yield_loop GM part kind limit offset (wrap64 (i + 1)) it' (data @ [Data node])))
      else Done data)"
  by pat_completeness auto
termination
  by (relation "measure (\<lambda>(GM, part, kind, limit, offset, i, it, data). length (pending it))")
    (auto simp: HasNext_def Next_def split: list.splits)

declare yield_loop.simps [simp del]

definition HandleGET_list ::
  "int \<Rightarrow> 'v graph_manager \<Rightarrow> 'b request \<Rightarrow> string list \<Rightarrow> 'v response outcome" where
  "HandleGET_list maxAlloc GM r resources =
     (case queryParamPosNum r ''limit'' of
        Inl e \<Rightarrow> Responded e
      | Inr limit \<Rightarrow>
     (case queryParamPosNum r ''offset'' of
        Inl e \<Rightarrow> Responded e
      | Inr offset \<Rightarrow>
     (case NodeKeyIterator GM (resources ! 0) (resources ! 2) of
        Inl err \<Rightarrow> Responded (http_Error err StatusInternalServerError)
      | Inr None \<Rightarrow> Responded (http_Error ''Unknown partition or node kind'' StatusBadRequest)
      | Inr (Some it) \<Rightarrow>
     (case (if offset \<noteq> - 1 then (skip_loop 0 offset it, offset) else ((None, it), 0)) of
        ((Some e, it'), offset') \<Rightarrow> Responded e
      | ((None, it'), offset') \<Rightarrow>
          if limit \<noteq> - 1 \<and> \<not> makeslice_ok maxAlloc limit then Panicked
          else
            (case yield_loop GM (resources ! 0) (resources ! 2) limit offset' offset' it' [] of
               Failed e \<Rightarrow> Responded e
             | Crashed \<Rightarrow> Panicked
             | Done data \<Rightarrow>
                 Responded
                   \<lparr>status = StatusOK,
                    headers =
                      [(HTTPHeaderTotalCount, FormatUint (NodeCount GM (resources ! 2))),
                       (''content-type'', ''application/json; charset=utf-8'')],
                    body = Json (JArray (map JObject data))\<rparr>)))))"

subsection \<open>HandleGET: a single node or edge\<close>

definition HandleGET_single :: "'v graph_manager \<Rightarrow> string list \<Rightarrow> 'v response outcome" where
  "HandleGET_single GM resources =
     (case
        (if resources ! 1 = ''n'' then
           (case FetchNode GM (resources ! 0) (resources ! 3) (resources ! 2) of
              Inl err \<Rightarrow> Inl (http_Error err StatusInternalServerError)
            | Inr None \<Rightarrow> Inl (http_Error ''Unknown partition or node kind'' StatusBadRequest)
            | Inr (Some node) \<Rightarrow> Inr (Data node))
         else
           (case FetchEdge GM (resources ! 0) (resources ! 3) (resources ! 2) of
              Inl err \<Rightarrow> Inl (http_Error err StatusInternalServerError)
            | Inr None \<Rightarrow> Inl (http_Error ''Unknown partition or edge kind'' StatusBadRequest)
            | Inr (Some edge) \<Rightarrow> Inr (EdgeData edge)))
      of
        Inl e \<Rightarrow> Responded e
      | Inr data \<Rightarrow>
          Responded
            \<lparr>status = StatusOK,
             headers = [(''content-type'', ''application/json; charset=utf-8'')],
             body = Json (JObject data)\<rparr>)"

subsection \<open>The comparator of traversal results\<close>

text \<open>
  \<^verbatim>\<open>fmt.Sprintf("%v", x)\<close> of an attribute value: \<^verbatim>\<open><nil>\<close> for a missing attribute; the
  text of any other value is a parameter \<open>fmt\<close>. Strings are compared as \<^verbatim>\<open><\<close> compares
  them: byte by byte, a proper prefix first.
\<close>

definition Sprintf_v :: "('v \<Rightarrow> string) \<Rightarrow> 'v option \<Rightarrow> string" where
  "Sprintf_v fmt x = (case x of None \<Rightarrow> ''<nil>'' | Some v \<Rightarrow> fmt v)"

fun string_less :: "string \<Rightarrow> string \<Rightarrow> bool" where
  "string_less [] [] = False"
| "string_less [] (y # ys) = True"
| "string_less (x # xs) [] = False"
| "string_less (x # xs) (y # ys) =
     ((of_char x :: nat) < of_char y \<or> (x = y \<and> string_less xs ys))"

text \<open>
  The comparator holds the two lists: \<^verbatim>\<open>Data[0]\<close>, the nodes, and \<^verbatim>\<open>Data[1]\<close>, the
  edges. The sort calls \<open>Less\<close> and \<open>Swap\<close> with indices below \<open>Len\<close> only.
\<close>

type_synonym 'v traversalResultComparator = "'v attrs list list"

definition Len :: "'v traversalResultComparator \<Rightarrow> nat" where
  "Len c = length (c ! 0)"

definition Less :: "('v \<Rightarrow> string) \<Rightarrow> 'v traversalResultComparator \<Rightarrow> nat \<Rightarrow> nat \<Rightarrow> bool" where
  "Less fmt c i j =
     (let c1 = c ! 0 ! i; c2 = c ! 0 ! j
      in string_less (Sprintf_v fmt (c1 NodeKey)) (Sprintf_v fmt (c2 NodeKey)))"

definition Swap :: "'v traversalResultComparator \<Rightarrow> nat \<Rightarrow> nat \<Rightarrow> 'v traversalResultComparator" where
  "Swap c i j =
     (let c' = c[0 := (c ! 0)[i := c ! 0 ! j, j := c ! 0 ! i]]
      in c'[1 := (c' ! 1)[i := c' ! 1 ! j, j := c' ! 1 ! i]])"

text \<open>
  Modelled from the spec: \<^verbatim>\<open>sort.Stable\<close> of the standard library, which is not among the
  sources. The spec asks for a stable, ascending order by the comparison of the comparator,
  and the library reaches the data through \<open>Len\<close>, \<open>Less\<close> and \<open>Swap\<close> alone. It is
  embedded as the library's \<^verbatim>\<open>insertionSort\<close>, the routine that \<^verbatim>\<open>sort.Stable\<close> runs on
  every block of up to 20 elements before it merges the blocks of a longer input. The
  order the contract asks for is unique (lemma \<open>sort_Stable_unique\<close>), so a sort that
  fulfils the contract returns what this one returns.
\<close>

function insertion_steps ::
  "('v \<Rightarrow> string) \<Rightarrow> 'v traversalResultComparator \<Rightarrow> nat \<Rightarrow> nat \<Rightarrow> 'v traversalResultComparator"
  where
  "insertion_steps fmt c a j =
     (if j > a \<and> Less fmt c j (j - 1) then insertion_steps fmt (Swap c j (j - 1)) a (j - 1)
      else c)"
  by pat_completeness auto
termination
  by (relation "measure (\<lambda>(fmt, c, a, j). j)") auto

declare insertion_steps.simps [simp del]

function insertion_loop ::
  "('v \<Rightarrow> string) \<Rightarrow> 'v traversalResultComparator \<Rightarrow> nat \<Rightarrow> nat \<Rightarrow> nat \<Rightarrow>
     'v traversalResultComparator" where
  "insertion_loop fmt c a b i =
     (if i < b then insertion_loop fmt (insertion_steps fmt c a i) a b (i + 1) else c)"
  by pat_completeness auto
termination
  by (relation "measure (\<lambda>(fmt, c, a, b, i). b - i)") auto

declare insertion_loop.simps [simp del]

definition insertionSort ::
  "('v \<Rightarrow> string) \<Rightarrow> 'v traversalResultComparator \<Rightarrow> nat \<Rightarrow> nat \<Rightarrow> 'v traversalResultComparator"
  where
  "insertionSort fmt c a b = insertion_loop fmt c a b (a + 1)"

definition sort_Stable ::
  "('v \<Rightarrow> string) \<Rightarrow> 'v traversalResultComparator \<Rightarrow> 'v traversalResultComparator" where
  "sort_Stable fmt c = insertionSort fmt c 0 (Len c)"

subsection \<open>HandleGET: a traversal\<close>

text \<open>
  The loop of lines 402 to 407 walks the nodes and reads the edge of the same index; it
  panics when the edges run out first.
\<close>

fun traversal_data :: "'v node list \<Rightarrow> 'v edge list \<Rightarrow> ('v attrs list \<times> 'v attrs list) option" where
  "traversal_data [] edges = Some ([], [])"
| "traversal_data (n # nodes) [] = None"
| "traversal_data (n # nodes) (e # edges) =
     (case traversal_data nodes edges of
        None \<Rightarrow> None
      | Some (dataNodes, dataEdges) \<Rightarrow> Some (Data n # dataNodes, EdgeData e # dataEdges))"

definition unsorted_data ::
  "'v node list option \<Rightarrow> 'v edge list option \<Rightarrow> ('v attrs list \<times> 'v attrs list) option" where
  "unsorted_data nodes edges =
     (case (nodes, edges) of
        (Some ns, Some es) \<Rightarrow> traversal_data ns es
      | _ \<Rightarrow> Some ([], []))"

definition HandleGET_traversal ::
  "('v \<Rightarrow> string) \<Rightarrow> 'v graph_manager \<Rightarrow> string list \<Rightarrow> 'v response outcome" where
  "HandleGET_traversal fmt GM resources =
     (case FetchNodePart GM (resources ! 0) (resources ! 3) (resources ! 2) [''key'', ''kind''] of
        Inl err \<Rightarrow> Responded (http_Error err StatusInternalServerError)
      | Inr None \<Rightarrow> Responded (http_Error ''Unknown partition or node kind'' StatusBadRequest)
      | Inr (Some node) \<Rightarrow>
     (case TraverseMulti GM (resources ! 0) (resources ! 3) (resources ! 2) (resources ! 4) True of
        Inl err \<Rightarrow> Responded (http_Error err StatusInternalServerError)
      | Inr (nodes, edges) \<Rightarrow>
     (case unsorted_data nodes edges of
        None \<Rightarrow> Panicked
      | Some (dataNodes, dataEdges) \<Rightarrow>
          let data = sort_Stable fmt [dataNodes, dataEdges] in
          Responded
            \<lparr>status = StatusOK,
             headers = [(''content-type'', ''application/json; charset=utf-8'')],
             body = Json (JArray (map (\<lambda>l. JArray (map JObject l)) data))\<rparr>)))"

subsection \<open>HandleGET\<close>

definition HandleGET ::
  "('v \<Rightarrow> string) \<Rightarrow> int \<Rightarrow> 'v graph_manager \<Rightarrow> 'b request \<Rightarrow> string list \<Rightarrow> 'v response outcome"
  where
  "HandleGET fmt maxAlloc GM r resources =
     (case checkResources resources 3 5
        ''Need a partition, entity type (n or e) and a kind; optional key and traversal spec''
      of
        Some e \<Rightarrow> Responded e
      | None \<Rightarrow>
          if resources ! 1 \<noteq> ''n'' \<and> resources ! 1 \<noteq> ''e''
          then Responded (http_Error ''Entity type must be n (nodes) or e (edges)'' StatusBadRequest)
          else if length resources = 3 then
            if resources ! 1 = ''n'' then HandleGET_list maxAlloc GM r resources
            else
              Responded
                (http_Error ''Entity type must be n (nodes) when requesting all items''
                   StatusBadRequest)
          else if length resources = 4 then HandleGET_single GM resources
          else if resources ! 1 = ''n'' then HandleGET_traversal fmt GM resources
          else
            Responded
              (http_Error ''Entity type must be n (nodes) when requesting traversal results''
                 StatusBadRequest))"

subsection \<open>The transaction\<close>

text \<open>
  The transaction object belongs to the graph package. It is embedded by what the handler
  can observe of it: the calls made on it so far, in order, and the error each call
  returns. The error may depend on all the earlier calls, so the behaviour of the
  transaction is a parameter \<open>S\<close> that maps the earlier calls and the new call to the
  error, if any.
\<close>

datatype 'v call =
    UpdateNode string "'v node"
  | StoreNode string "'v node"
  | RemoveNode string string string
  | StoreEdge string "'v edge"
  | RemoveEdge string string string
  | Commit

type_synonym 'v trans = "'v call list"

type_synonym 'v trans_behaviour = "'v call list \<Rightarrow> 'v call \<Rightarrow> string option"

definition NewGraphTrans :: "'v trans" where
  "NewGraphTrans = []"

definition invoke :: "'v trans_behaviour \<Rightarrow> 'v trans \<Rightarrow> 'v call \<Rightarrow> string option \<times> 'v trans" where
  "invoke S tr c = (S tr c, tr @ [c])"

definition Trans_UpdateNode ::
  "'v trans_behaviour \<Rightarrow> 'v trans \<Rightarrow> string \<Rightarrow> 'v node \<Rightarrow> string option \<times> 'v trans" where
  "Trans_UpdateNode S tr part node = invoke S tr (UpdateNode part node)"

definition Trans_StoreNode ::
  "'v trans_behaviour \<Rightarrow> 'v trans \<Rightarrow> string \<Rightarrow> 'v node \<Rightarrow> string option \<times> 'v trans" where
  "Trans_StoreNode S tr part node = invoke S tr (StoreNode part node)"

definition Trans_RemoveNode ::
  "'v trans_behaviour \<Rightarrow> 'v trans \<Rightarrow> string \<Rightarrow> string \<Rightarrow> string \<Rightarrow> string option \<times> 'v trans" where
  "Trans_RemoveNode S tr part key kind = invoke S tr (RemoveNode part key kind)"

definition Trans_StoreEdge ::
  "'v trans_behaviour \<Rightarrow> 'v trans \<Rightarrow> string \<Rightarrow> 'v edge \<Rightarrow> string option \<times> 'v trans" where
  "Trans_StoreEdge S tr part edge = invoke S tr (StoreEdge part edge)"

definition Trans_RemoveEdge ::
  "'v trans_behaviour \<Rightarrow> 'v trans \<Rightarrow> string \<Rightarrow> string \<Rightarrow> string \<Rightarrow> string option \<times> 'v trans" where
  "Trans_RemoveEdge S tr part key kind = invoke S tr (RemoveEdge part key kind)"

definition Trans_Commit :: "'v trans_behaviour \<Rightarrow> 'v trans \<Rightarrow> string option \<times> 'v trans" where
  "Trans_Commit S tr = invoke S tr Commit"

text \<open>
  The methods \<^verbatim>\<open>Key()\<close> and \<^verbatim>\<open>Kind()\<close> of the data package, and the JSON decoder of the
  standard library with the two targets the handler decodes into (the object of lists,
  where a missing or null entry is the nil list \<open>None\<close>; and the bare list), are parameters.
\<close>

record 'v entity_api =
  Key :: "'v node \<Rightarrow> string"
  Kind :: "'v node \<Rightarrow> string"

record ('b, 'v) json_decoder =
  Decode_graph :: "'b \<Rightarrow> string + (string \<rightharpoonup> 'v attrs list)"
  Decode_list :: "'b \<Rightarrow> string + 'v attrs list option"

subsection \<open>handleGraphRequest and the handlers of PUT, POST and DELETE\<close>

fun node_loop ::
  "('v trans \<Rightarrow> string \<Rightarrow> 'v node \<Rightarrow> string option \<times> 'v trans) \<Rightarrow> 'v trans \<Rightarrow> string \<Rightarrow>
     'v attrs list \<Rightarrow> 'v response option \<times> 'v trans" where
  "node_loop transFuncNode tr part [] = (None, tr)"
| "node_loop transFuncNode tr part (ndata # rest) =
     (let node = NewGraphNodeFromMap ndata in
      case transFuncNode tr part node of
        (Some err, tr') \<Rightarrow> (Some (http_Error err StatusBadRequest), tr')
      | (None, tr') \<Rightarrow> node_loop transFuncNode tr' part rest)"

fun edge_loop ::
  "('v trans \<Rightarrow> string \<Rightarrow> 'v edge \<Rightarrow> string option \<times> 'v trans) \<Rightarrow> 'v trans \<Rightarrow> string \<Rightarrow>
     'v attrs list \<Rightarrow> 'v response option \<times> 'v trans" where
  "edge_loop transFuncEdge tr part [] = (None, tr)"
| "edge_loop transFuncEdge tr part (edata # rest) =
     (let edge = NewGraphEdgeFromNode (NewGraphNodeFromMap edata) in
      case transFuncEdge tr part edge of
        (Some err, tr') \<Rightarrow> (Some (http_Error err StatusBadRequest), tr')
      | (None, tr') \<Rightarrow> edge_loop transFuncEdge tr' part rest)"

text \<open>
  The lists of nodes and edges the body decodes to, by the shape of the path (lines 489
  to 521).
\<close>

definition decode_body ::
  "('b, 'v) json_decoder \<Rightarrow> 'b request \<Rightarrow> string list \<Rightarrow>
     'v response + ('v attrs list option \<times> 'v attrs list option)" where
  "decode_body J r resources =
     (if length resources = 1 then
        (case Decode_graph J (Body r) of
           Inl err \<Rightarrow>
             Inl (http_Error
                   (''Could not decode request body as object with list of nodes and/or edges: ''
                      @ err) StatusBadRequest)
         | Inr gdata \<Rightarrow> Inr (gdata ''nodes'', gdata ''edges''))
      else if resources ! 1 = ''n'' then
        (case Decode_list J (Body r) of
           Inl err \<Rightarrow>
             Inl (http_Error (''Could not decode request body as list of nodes: '' @ err)
                   StatusBadRequest)
         | Inr nDataList \<Rightarrow> Inr (nDataList, None))
      else if resources ! 1 = ''e'' then
        (case Decode_list J (Body r) of
           Inl err \<Rightarrow>
             Inl (http_Error (''Could not decode request body as list of edges: '' @ err)
                   StatusBadRequest)
         | Inr eDataList \<Rightarrow> Inr (None, eDataList))
      else Inr (None, None))"

text \<open>
  The handler returns the response together with the transaction as it leaves it, that
  is, with all the calls it made on it (none when no transaction was created).
\<close>

definition handleGraphRequest ::
  "('b, 'v) json_decoder \<Rightarrow> 'v trans_behaviour \<Rightarrow> 'b request \<Rightarrow> string list \<Rightarrow>
     ('v trans \<Rightarrow> string \<Rightarrow> 'v node \<Rightarrow> string option \<times> 'v trans) \<Rightarrow>
     ('v trans \<Rightarrow> string \<Rightarrow> 'v edge \<Rightarrow> string option \<times> 'v trans) \<Rightarrow>
     'v response \<times> 'v trans" where
  "handleGraphRequest J S r resources transFuncNode transFuncEdge =
     (case checkResources resources 1 2 ''Need a partition; optional entity type (n or e)'' of
        Some e \<Rightarrow> (e, [])
      | None \<Rightarrow>
     (case decode_body J r resources of
        Inl e \<Rightarrow> (e, [])
      | Inr (nDataList, eDataList) \<Rightarrow>
     (let tr = NewGraphTrans in
      case
        (case nDataList of
           None \<Rightarrow> (None, tr)
         | Some l \<Rightarrow> node_loop transFuncNode tr (resources ! 0) l)
      of
        (Some e, tr) \<Rightarrow> (e, tr)
      | (None, tr) \<Rightarrow>
     (case
        (case eDataList of
           None \<Rightarrow> (None, tr)
         | Some l \<Rightarrow> edge_loop transFuncEdge tr (resources ! 0) l)
      of
        (Some e, tr) \<Rightarrow> (e, tr)
      | (None, tr) \<Rightarrow>
     (case Trans_Commit S tr of
        (Some err, tr) \<Rightarrow> (http_Error err StatusInternalServerError, tr)
      | (None, tr) \<Rightarrow> (\<lparr>status = StatusOK, headers = [], body = NoBody\<rparr>, tr))))))"

definition HandlePUT ::
  "('b, 'v) json_decoder \<Rightarrow> 'v trans_behaviour \<Rightarrow> 'b request \<Rightarrow> string list \<Rightarrow>
     'v response \<times> 'v trans" where
  "HandlePUT J S r resources =
     handleGraphRequest J S r resources
       (\<lambda>tr part node. Trans_UpdateNode S tr part node)
       (\<lambda>tr part edge. Trans_StoreEdge S tr part edge)"

definition HandlePOST ::
  "('b, 'v) json_decoder \<Rightarrow> 'v trans_behaviour \<Rightarrow> 'b request \<Rightarrow> string list \<Rightarrow>
     'v response \<times> 'v trans" where
  "HandlePOST J S r resources =
     handleGraphRequest J S r resources
       (\<lambda>tr part node. Trans_StoreNode S tr part node)
       (\<lambda>tr part edge. Trans_StoreEdge S tr part edge)"

definition HandleDELETE ::
  "'v entity_api \<Rightarrow> ('b, 'v) json_decoder \<Rightarrow> 'v trans_behaviour \<Rightarrow> 'b request \<Rightarrow> string list \<Rightarrow>
     'v response \<times> 'v trans" where
  "HandleDELETE D J S r resources =
     handleGraphRequest J S r resources
       (\<lambda>tr part node. Trans_RemoveNode S tr part (Key D node) (Kind D node))
       (\<lambda>tr part edge.
          Trans_RemoveEdge S tr part (Key D (EdgeNode edge)) (Kind D (EdgeNode edge)))"

subsection \<open>Notions used to state the properties\<close>

text \<open>
  The steps of an iterator that report no error; the number of keys a request asks to
  skip; and the relation between a key and the row the list shows for it, which is the
  attribute map of the node that \<open>FetchNode\<close> returns for the key.
\<close>

definition no_fault :: "(string \<times> string option) list \<Rightarrow> bool" where
  "no_fault steps = list_all (\<lambda>s. snd s = None) steps"

definition skip_count :: "qparam \<Rightarrow> nat" where
  "skip_count q = (case q of Given n \<Rightarrow> nat n | _ \<Rightarrow> 0)"

definition row_of :: "'v graph_manager \<Rightarrow> string \<Rightarrow> string \<Rightarrow> string \<Rightarrow> 'v attrs \<Rightarrow> bool" where
  "row_of GM part kind key d =
     (case FetchNode GM part key kind of Inr (Some node) \<Rightarrow> Data node = d | _ \<Rightarrow> False)"

subsection \<open>A small graph\<close>

text \<open>
  The graph of the examples: five persons in the partition \<^verbatim>\<open>main\<close> and one in the
  partition \<^verbatim>\<open>second\<close>, so that the manager counts six nodes of the kind; a traversal
  from the person 1 reaches the person b and then the person a. Attribute values are
  strings, whose text is the string itself.
\<close>

definition person :: "string \<Rightarrow> string node" where
  "person key = GraphNode [''key'' \<mapsto> key, ''kind'' \<mapsto> ''Person'']"

definition follows :: "string \<Rightarrow> string edge" where
  "follows key = GraphEdge (GraphNode [''key'' \<mapsto> key, ''kind'' \<mapsto> ''Follows''])"

definition example_iterator :: iterator where
  "example_iterator =
     \<lparr>pending = [(''1'', None), (''2'', None), (''3'', None), (''4'', None), (''5'', None)],
      LastError = None\<rparr>"

definition example_GM :: "string graph_manager" where
  "example_GM =
     \<lparr>NodeKeyIterator =
        (\<lambda>part kind.
           if part = ''main'' \<and> kind = ''Person'' then Inr (Some example_iterator)
           else if part = ''second'' \<and> kind = ''Person''
           then Inr (Some \<lparr>pending = [(''6'', None)], LastError = None\<rparr>)
           else Inr None),
      FetchNode =
        (\<lambda>part key kind. if kind = ''Person'' then Inr (Some (person key)) else Inr None),
      FetchEdge = (\<lambda>part key kind. Inr None),
      FetchNodePart =
        (\<lambda>part key kind attrs. if kind = ''Person'' then Inr (Some (person key)) else Inr None),
      NodeCount = (\<lambda>kind. if kind = ''Person'' then 6 else 0),
      TraverseMulti =
        (\<lambda>part key kind spec allData.
           if key = ''1''
           then Inr (Some [person ''b'', person ''a''], Some [follows ''1b'', follows ''1a''])
           else Inr (None, None))\<rparr>"

definition example_request :: "qparam \<Rightarrow> qparam \<Rightarrow> unit request" where
  "example_request l ofs =
     \<lparr>Query = (\<lambda>p. if p = ''limit'' then l else if p = ''offset'' then ofs else NotGiven),
      Body = ()\<rparr>"

definition Sprint_string :: "string \<Rightarrow> string" where
  "Sprint_string s = s"

definition page_2_3 :: "string response" where
  "page_2_3 =
     \<lparr>status = StatusOK,
      headers =
        [(HTTPHeaderTotalCount, ''6''), (''content-type'', ''application/json; charset=utf-8'')],
      body = Json (JArray [JObject (Data (person ''2'')), JObject (Data (person ''3''))])\<rparr>"

definition page_6 :: "string response" where
  "page_6 =
     \<lparr>status = StatusOK,
      headers =
        [(HTTPHeaderTotalCount, ''6''), (''content-type'', ''application/json; charset=utf-8'')],
      body = Json (JArray [JObject (Data (person ''6''))])\<rparr>"

subsection \<open>The three verbs\<close>

text \<open>
  Modelled from the spec: the dispatch of a request to the handler of its verb, which the
  endpoint framework does and which is not among the sources.
\<close>

datatype verb = PUT | POST | DELETE

definition Handle ::
  "verb \<Rightarrow> 'v entity_api \<Rightarrow> ('b, 'v) json_decoder \<Rightarrow> 'v trans_behaviour \<Rightarrow> 'b request \<Rightarrow>
     string list \<Rightarrow> 'v response \<times> 'v trans" where
  "Handle verb D J S r resources =
     (case verb of
        PUT \<Rightarrow> HandlePUT J S r resources
      | POST \<Rightarrow> HandlePOST J S r resources
      | DELETE \<Rightarrow> HandleDELETE D J S r resources)"

text \<open>
  The table of the spec (section 4.4), as the call on the transaction that the strategy of
  a verb makes for one node and for one edge: PUT merges the attributes of a node
  (\<open>UpdateNode\<close>) and replaces or creates an edge (\<open>StoreEdge\<close>); POST replaces or creates
  both; DELETE removes both by key and kind. \<open>spec_calls\<close> lists the calls for a decoded
  body: those for the nodes, in their order, then those for the edges, in theirs.
\<close>

definition spec_node_call :: "'v entity_api \<Rightarrow> verb \<Rightarrow> string \<Rightarrow> 'v node \<Rightarrow> 'v call" where
  "spec_node_call D verb part node =
     (case verb of
        PUT \<Rightarrow> UpdateNode part node
      | POST \<Rightarrow> StoreNode part node
      | DELETE \<Rightarrow> RemoveNode part (Key D node) (Kind D node))"

definition spec_edge_call :: "'v entity_api \<Rightarrow> verb \<Rightarrow> string \<Rightarrow> 'v edge \<Rightarrow> 'v call" where
  "spec_edge_call D verb part edge =
     (case verb of
        PUT \<Rightarrow> StoreEdge part edge
      | POST \<Rightarrow> StoreEdge part edge
      | DELETE \<Rightarrow> RemoveEdge part (Key D (EdgeNode edge)) (Kind D (EdgeNode edge)))"

definition items_of :: "'a list option \<Rightarrow> 'a list" where
  "items_of l = (case l of None \<Rightarrow> [] | Some xs \<Rightarrow> xs)"

definition spec_calls ::
  "'v entity_api \<Rightarrow> verb \<Rightarrow> string \<Rightarrow> 'v attrs list option \<Rightarrow> 'v attrs list option \<Rightarrow> 'v call list"
  where
  "spec_calls D verb part nDataList eDataList =
     map (\<lambda>d. spec_node_call D verb part (NewGraphNodeFromMap d)) (items_of nDataList) @
     map (\<lambda>d. spec_edge_call D verb part (NewGraphEdgeFromNode (NewGraphNodeFromMap d)))
       (items_of eDataList)"

subsection \<open>A small batch\<close>

text \<open>
  The batch of the examples: two persons and the edge between them, in the envelope form.
  The decoder of the examples reads the body as the object it already is. One transaction
  accepts every call; the other rejects the second call made on it.
\<close>

definition example_decoder :: "(string \<rightharpoonup> string attrs list, string) json_decoder" where
  "example_decoder =
     \<lparr>Decode_graph = (\<lambda>b. Inr b),
      Decode_list = (\<lambda>b. Inl ''cannot unmarshal object into a list'')\<rparr>"

definition example_batch :: "(string \<rightharpoonup> string attrs list) request" where
  "example_batch =
     \<lparr>Query = (\<lambda>p. NotGiven),
      Body =
        [''nodes'' \<mapsto> [Data (person ''1''), Data (person ''2'')],
         ''edges'' \<mapsto> [EdgeData (follows ''12'')]]\<rparr>"

definition example_entity_api :: "string entity_api" where
  "example_entity_api =
     \<lparr>Key = (\<lambda>n. case Data n ''key'' of None \<Rightarrow> [] | Some v \<Rightarrow> v),
      Kind = (\<lambda>n. case Data n ''kind'' of None \<Rightarrow> [] | Some v \<Rightarrow> v)\<rparr>"

definition accept_all :: "string trans_behaviour" where
  "accept_all tr c = None"

definition reject_second :: "string trans_behaviour" where
  "reject_second tr c = (if length tr = 1 then Some ''rejected'' else None)"

subsection \<open>Notions used to state the properties of the sort\<close>

text \<open>
  The text of the key of an attribute map, as \<open>Less\<close> reads it; the effect of a sequence of
  calls of \<open>Swap\<close>; and the relation between two pairs of lists of the same length that
  holds when one index permutation takes the first pair to the second.
\<close>

definition key_text :: "('v \<Rightarrow> string) \<Rightarrow> 'v attrs \<Rightarrow> string" where
  "key_text fmt d = Sprintf_v fmt (d NodeKey)"

fun swaps :: "'v traversalResultComparator \<Rightarrow> (nat \<times> nat) list \<Rightarrow> 'v traversalResultComparator" where
  "swaps c [] = c"
| "swaps c ((i, j) # rest) = swaps (Swap c i j) rest"

definition co_permuted :: "'a list \<Rightarrow> 'b list \<Rightarrow> 'a list \<Rightarrow> 'b list \<Rightarrow> bool" where
  "co_permuted ns es ns' es' =
     (length es = length ns \<and> length ns' = length ns \<and> length es' = length ns \<and>
      (\<exists>p. bij_betw p {..<length ns} {..<length ns} \<and>
           (\<forall>i<length ns. ns' ! i = ns ! p i \<and> es' ! i = es ! p i)))"

text \<open>The response to the traversal of the small graph from the person 1.\<close>

definition traversal_a_b :: "string response" where
  "traversal_a_b =
     \<lparr>status = StatusOK,
      headers = [(''content-type'', ''application/json; charset=utf-8'')],
      body =
        Json (JArray
          [JArray [JObject (Data (person ''a'')), JObject (Data (person ''b''))],
           JArray [JObject (EdgeData (follows ''1a'')), JObject (EdgeData (follows ''1b''))]])\<rparr>"

section \<open>Properties\<close>

subsection \<open>Status codes, machine integers, query parameters\<close>

lemma status_http_Error [simp]: "status (http_Error m c) = c"
  by (simp add: http_Error_def)

lemma status_neq [simp]:
  "StatusBadRequest \<noteq> StatusOK" "StatusInternalServerError \<noteq> StatusOK"
  "StatusOK \<noteq> StatusBadRequest" "StatusOK \<noteq> StatusInternalServerError"
  by (simp_all add: StatusOK_def StatusBadRequest_def StatusInternalServerError_def)

lemma wrap64_id: "- (2 ^ 63) \<le> x \<Longrightarrow> x < 2 ^ 63 \<Longrightarrow> wrap64 x = x"
  by (simp add: wrap64_def)

lemma bound_unwrap:
  "0 \<le> offset \<Longrightarrow> 0 \<le> limit \<Longrightarrow> offset + limit < 2 ^ 63 \<Longrightarrow>
     wrap64 (wrap64 (offset + limit) - 1) = offset + limit - 1"
  by (simp add: wrap64_id)

lemma queryParamPosNum_Inr:
  "(queryParamPosNum r p :: 'v response + int) = Inr v \<Longrightarrow>
     (Query r p = NotGiven \<and> v = - 1) \<or> (Query r p = Given v \<and> 0 \<le> v \<and> v < 2 ^ 63)"
  by (auto simp: queryParamPosNum_def split: qparam.splits if_splits)

lemma queryParamPosNum_Inl:
  "(queryParamPosNum r p :: 'v response + int) = Inl e \<Longrightarrow> status e = StatusBadRequest"
  by (auto simp: queryParamPosNum_def split: qparam.splits if_splits)

subsection \<open>The loop that skips the offset\<close>

lemma skip_loop_done: "\<not> i < offset \<Longrightarrow> skip_loop i offset it = (None, it)"
  by (simp add: skip_loop.simps)

lemma skip_loop_empty:
  "i < offset \<Longrightarrow> pending it = [] \<Longrightarrow>
     skip_loop i offset it =
       (Some (http_Error ''Offset exceeds available nodes'' StatusInternalServerError), it)"
  by (simp add: skip_loop.simps HasNext_def)

lemma skip_loop_step:
  "i < offset \<Longrightarrow> pending it = (k, None) # rest \<Longrightarrow>
     skip_loop i offset it = skip_loop (i + 1) offset \<lparr>pending = rest, LastError = None\<rparr>"
  by (subst skip_loop.simps) (simp add: HasNext_def Next_def)

lemma skip_loop_fault:
  "i < offset \<Longrightarrow> pending it = (k, Some e) # rest \<Longrightarrow>
     skip_loop i offset it =
       (Some (http_Error e StatusInternalServerError), \<lparr>pending = rest, LastError = Some e\<rparr>)"
  by (subst skip_loop.simps) (simp add: HasNext_def Next_def)

lemma skip_loop_zero: "skip_loop 0 0 it = (None, it)"
  by (simp add: skip_loop_done)

lemma skip_loop_Cons:
  "skip_loop i offset \<lparr>pending = (k, e) # rest, LastError = le\<rparr> =
     (if i < offset then
        (case e of
           Some x \<Rightarrow> (Some (http_Error x StatusInternalServerError), \<lparr>pending = rest, LastError = e\<rparr>)
         | None \<Rightarrow> skip_loop (i + 1) offset \<lparr>pending = rest, LastError = e\<rparr>)
      else (None, \<lparr>pending = (k, e) # rest, LastError = le\<rparr>))"
  by (subst skip_loop.simps) (simp add: HasNext_def Next_def split: option.splits)

lemma skip_loop_Nil:
  "skip_loop i offset \<lparr>pending = [], LastError = le\<rparr> =
     (if i < offset
      then (Some (http_Error ''Offset exceeds available nodes'' StatusInternalServerError),
            \<lparr>pending = [], LastError = le\<rparr>)
      else (None, \<lparr>pending = [], LastError = le\<rparr>))"
  by (subst skip_loop.simps) (simp add: HasNext_def)

lemma skip_loop_pending:
  "no_fault (take (nat (offset - i)) ps) \<Longrightarrow> pending it = ps \<Longrightarrow>
     pending (snd (skip_loop i offset it)) = drop (nat (offset - i)) ps"
proof (induction ps arbitrary: i it)
  case Nil
  then show ?case by (cases "i < offset") (simp_all add: skip_loop_done skip_loop_empty)
next
  case (Cons p ps)
  show ?case
  proof (cases "i < offset")
    case False
    then show ?thesis using Cons.prems by (simp add: skip_loop_done)
  next
    case True
    then have n: "nat (offset - i) = Suc (nat (offset - (i + 1)))" by simp
    obtain k e where p: "p = (k, e)" by (cases p)
    from Cons.prems(1) have e: "e = None" and nf: "no_fault (take (nat (offset - (i + 1))) ps)"
      unfolding n p by (simp_all add: no_fault_def)
    have st: "skip_loop i offset it = skip_loop (i + 1) offset \<lparr>pending = ps, LastError = None\<rparr>"
      using True Cons.prems(2) by (simp add: skip_loop_step p e)
    show ?thesis using Cons.IH [OF nf, of "\<lparr>pending = ps, LastError = None\<rparr>"] by (simp add: st n)
  qed
qed

lemma skip_loop_result:
  "no_fault (take (nat (offset - i)) ps) \<Longrightarrow> pending it = ps \<Longrightarrow>
     fst (skip_loop i offset it) =
       (if nat (offset - i) \<le> length ps then None
        else Some (http_Error ''Offset exceeds available nodes'' StatusInternalServerError))"
proof (induction ps arbitrary: i it)
  case Nil
  then show ?case by (cases "i < offset") (simp_all add: skip_loop_done skip_loop_empty)
next
  case (Cons p ps)
  show ?case
  proof (cases "i < offset")
    case False
    then show ?thesis using Cons.prems by (simp add: skip_loop_done)
  next
    case True
    then have n: "nat (offset - i) = Suc (nat (offset - (i + 1)))" by simp
    obtain k e where p: "p = (k, e)" by (cases p)
    from Cons.prems(1) have e: "e = None" and nf: "no_fault (take (nat (offset - (i + 1))) ps)"
      unfolding n p by (simp_all add: no_fault_def)
    have st: "skip_loop i offset it = skip_loop (i + 1) offset \<lparr>pending = ps, LastError = None\<rparr>"
      using True Cons.prems(2) by (simp add: skip_loop_step p e)
    show ?thesis using Cons.IH [OF nf, of "\<lparr>pending = ps, LastError = None\<rparr>"] by (simp add: st n)
  qed
qed

lemma skip_loop_error_status:
  "fst (skip_loop i offset it) = Some e \<Longrightarrow> status e = StatusInternalServerError \<and> (\<exists>m. body e = ErrorText m) \<and> headers e = []"
proof (induction i offset it rule: skip_loop.induct)
  case (1 i offset it)
  show ?case
  proof (cases "i < offset")
    case False
    with "1.prems" show ?thesis by (simp add: skip_loop_done)
  next
    case True
    show ?thesis
    proof (cases "pending it")
      case Nil
      with True "1.prems" show ?thesis by (auto simp: skip_loop_empty http_Error_def)
    next
      case (Cons p rest)
      obtain k e' where p: "p = (k, e')" by (cases p)
      show ?thesis
      proof (cases e')
        case None
        have hn: "HasNext it" using Cons by (simp add: HasNext_def)
        have nx: "snd (Next it) = \<lparr>pending = rest, LastError = None\<rparr>" using Cons p None by (simp add: Next_def)
        have st: "skip_loop i offset it = skip_loop (i + 1) offset (snd (Next it))"
          using True Cons p None by (simp add: skip_loop_step nx)
        show ?thesis using "1.IH" [OF True _ refl] hn nx "1.prems" by (simp add: st)
      next
        case (Some x)
        with True Cons p "1.prems" show ?thesis by (auto simp: skip_loop_fault http_Error_def)
      qed
    qed
  qed
qed

lemma skip_loop_None:
  "fst (skip_loop i offset it :: 'v response option \<times> iterator) = None \<Longrightarrow>
     nat (offset - i) \<le> length (pending it) \<and>
     pending (snd (skip_loop i offset it :: 'v response option \<times> iterator)) =
       drop (nat (offset - i)) (pending it) \<and>
     no_fault (take (nat (offset - i)) (pending it))"
proof (induction i offset it rule: skip_loop.induct)
  case (1 i offset it)
  show ?case
  proof (cases "i < offset")
    case False
    then show ?thesis by (simp add: skip_loop_done no_fault_def)
  next
    case True
    then have n: "nat (offset - i) = Suc (nat (offset - (i + 1)))" by simp
    show ?thesis
    proof (cases "pending it")
      case Nil
      with True "1.prems" show ?thesis by (simp add: skip_loop_empty)
    next
      case (Cons p rest)
      obtain k e' where p: "p = (k, e')" by (cases p)
      show ?thesis
      proof (cases e')
        case None
        have hn: "HasNext it" using Cons by (simp add: HasNext_def)
        have nx: "snd (Next it) = \<lparr>pending = rest, LastError = None\<rparr>"
          using Cons p None by (simp add: Next_def)
        have st: "skip_loop i offset it = skip_loop (i + 1) offset (snd (Next it))"
          using True Cons p None by (simp add: skip_loop_step nx)
        show ?thesis
          using "1.IH" [OF True _ refl] hn nx "1.prems" Cons p None
          by (simp add: st n no_fault_def)
      next
        case (Some x)
        with True Cons p "1.prems" show ?thesis by (simp add: skip_loop_fault)
      qed
    qed
  qed
qed

subsection \<open>The loop that fetches the page\<close>

lemma yield_loop_stop:
  "pending it = [] \<Longrightarrow> yield_loop GM part kind limit offset i it data = Done data"
  by (subst yield_loop.simps) (simp add: HasNext_def)

lemma yield_loop_break:
  "limit \<noteq> - 1 \<Longrightarrow> i > wrap64 (wrap64 (offset + limit) - 1) \<Longrightarrow>
     yield_loop GM part kind limit offset i it data = Done data"
  by (subst yield_loop.simps) simp

lemma yield_loop_step:
  "pending it = (k, e) # rest \<Longrightarrow> \<not> (limit \<noteq> - 1 \<and> i > wrap64 (wrap64 (offset + limit) - 1)) \<Longrightarrow>
     yield_loop GM part kind limit offset i it data =
       (case e of
          Some x \<Rightarrow> Failed (http_Error x StatusInternalServerError)
        | None \<Rightarrow>
            (case FetchNode GM part k kind of
               Inl x \<Rightarrow> Failed (http_Error x StatusInternalServerError)
             | Inr None \<Rightarrow> Crashed
             | Inr (Some node) \<Rightarrow>
                 yield_loop GM part kind limit offset (wrap64 (i + 1))
                   \<lparr>pending = rest, LastError = e\<rparr> (data @ [Data node])))"
  by (subst yield_loop.simps) (auto simp: HasNext_def Next_def Let_def split: option.splits sum.splits)

lemma yield_loop_Nil:
  "yield_loop GM part kind limit offset i \<lparr>pending = [], LastError = le\<rparr> data = Done data"
  by (simp add: yield_loop_stop)

lemma yield_loop_Cons:
  "yield_loop GM part kind limit offset i \<lparr>pending = (k, e) # rest, LastError = le\<rparr> data =
     (if limit \<noteq> - 1 \<and> i > wrap64 (wrap64 (offset + limit) - 1) then Done data
      else
        (case e of
           Some x \<Rightarrow> Failed (http_Error x StatusInternalServerError)
         | None \<Rightarrow>
            (case FetchNode GM part k kind of
               Inl x \<Rightarrow> Failed (http_Error x StatusInternalServerError)
             | Inr None \<Rightarrow> Crashed
             | Inr (Some node) \<Rightarrow>
                 yield_loop GM part kind limit offset (wrap64 (i + 1))
                   \<lparr>pending = rest, LastError = e\<rparr> (data @ [Data node]))))"
  by (simp add: yield_loop_break yield_loop_step [where rest = rest])

lemma yield_loop_Failed:
  "yield_loop GM part kind limit offset i it data = Failed x \<Longrightarrow>
     status x = StatusInternalServerError"
proof (induction "pending it" arbitrary: it i data)
  case Nil
  then show ?case by (simp add: yield_loop_stop [OF Nil.hyps [symmetric]])
next
  case (Cons p rest)
  obtain k e where p: "p = (k, e)" by (cases p)
  have pend: "pending it = (k, e) # rest" using Cons.hyps(2) p by simp
  show ?case
  proof (cases "limit \<noteq> - 1 \<and> i > wrap64 (wrap64 (offset + limit) - 1)")
    case True
    then show ?thesis using Cons.prems by (simp add: yield_loop_break)
  next
    case False
    note step = yield_loop_step [OF pend False, of GM part kind data]
    show ?thesis
      using Cons.prems Cons.hyps(1) [of "\<lparr>pending = rest, LastError = e\<rparr>"]
      unfolding step by (auto split: option.splits sum.splits)
  qed
qed

lemma yield_loop_prefix:
  "yield_loop GM part kind limit offset i it data = Done rows \<Longrightarrow>
   \<exists>ds. rows = data @ ds \<and>
     list_all2 (row_of GM part kind) (map fst (take (length ds) (pending it))) ds"
proof (induction "pending it" arbitrary: it i data)
  case Nil
  then show ?case by (simp add: yield_loop_stop [OF Nil.hyps [symmetric]])
next
  case (Cons p rest)
  obtain k e where p: "p = (k, e)" by (cases p)
  have pend: "pending it = (k, e) # rest" using Cons.hyps(2) p by simp
  show ?case
  proof (cases "limit \<noteq> - 1 \<and> i > wrap64 (wrap64 (offset + limit) - 1)")
    case True
    then show ?thesis using Cons.prems by (simp add: yield_loop_break)
  next
    case False
    note step = yield_loop_step [OF pend False, of GM part kind data]
    show ?thesis
    proof (cases e)
      case (Some x)
      with step Cons.prems(1) show ?thesis by simp
    next
      case None
      show ?thesis
      proof (cases "FetchNode GM part k kind")
        case (Inl x)
        with step None Cons.prems(1) show ?thesis by simp
      next
        case (Inr no)
        show ?thesis
        proof (cases no)
          case None2: None
          with step None Inr Cons.prems(1) show ?thesis by simp
        next
          case (Some node)
          let ?it' = "\<lparr>pending = rest, LastError = e\<rparr>"
          have rec: "yield_loop GM part kind limit offset (wrap64 (i + 1)) ?it' (data @ [Data node]) = Done rows"
            using step None Inr Some Cons.prems(1) by simp
          have row: "row_of GM part kind k (Data node)"
            using Inr Some by (simp add: row_of_def)
          from Cons.hyps(1) [of ?it' "wrap64 (i + 1)" "data @ [Data node]"] rec
          obtain ds where "rows = (data @ [Data node]) @ ds"
            "list_all2 (row_of GM part kind) (map fst (take (length ds) rest)) ds" by auto
          then have "rows = data @ (Data node # ds) \<and>
             list_all2 (row_of GM part kind) (map fst (take (length (Data node # ds)) (pending it))) (Data node # ds)"
            using pend row by simp
          then show ?thesis by blast
        qed
      qed
    qed
  qed
qed

lemma yield_loop_Done:
  "yield_loop GM part kind limit offset i it data = Done rows \<Longrightarrow>
   limit = - 1 \<or> (0 \<le> offset \<and> 0 \<le> limit \<and> offset \<le> i \<and> i \<le> offset + limit \<and> offset + limit < 2 ^ 63) \<Longrightarrow>
   \<exists>ds. rows = data @ ds \<and>
     list_all2 (row_of GM part kind)
       (map fst (take (if limit = - 1 then length (pending it) else nat (offset + limit - i)) (pending it))) ds"
proof (induction "pending it" arbitrary: it i data)
  case Nil
  then show ?case by (simp add: yield_loop_stop [OF Nil.hyps [symmetric]])
next
  case (Cons p rest)
  obtain k e where p: "p = (k, e)" by (cases p)
  have pend: "pending it = (k, e) # rest" using Cons.hyps(2) p by simp
  show ?case
  proof (cases "limit \<noteq> - 1 \<and> i > wrap64 (wrap64 (offset + limit) - 1)")
    case True
    then have lim: "limit \<noteq> - 1" and gt: "i > wrap64 (wrap64 (offset + limit) - 1)" by simp_all
    from Cons.prems(2) lim
    have rng: "0 \<le> offset" "0 \<le> limit" "offset \<le> i" "i \<le> offset + limit" "offset + limit < 2 ^ 63"
      by simp_all
    from gt have "i > offset + limit - 1" using bound_unwrap [OF rng(1,2,5)] by simp
    with rng have "nat (offset + limit - i) = 0" by simp
    moreover have "rows = data"
      using Cons.prems(1) by (simp add: yield_loop_break [OF lim gt])
    ultimately show ?thesis using lim by simp
  next
    case False
    note step = yield_loop_step [OF pend False, of GM part kind data]
    show ?thesis
    proof (cases e)
      case (Some x)
      with step Cons.prems(1) show ?thesis by simp
    next
      case None
      show ?thesis
      proof (cases "FetchNode GM part k kind")
        case (Inl x)
        with step None Cons.prems(1) show ?thesis by simp
      next
        case (Inr no)
        show ?thesis
        proof (cases no)
          case None2: None
          with step None Inr Cons.prems(1) show ?thesis by simp
        next
          case (Some node)
          let ?it' = "\<lparr>pending = rest, LastError = e\<rparr>"
          have rec: "yield_loop GM part kind limit offset (wrap64 (i + 1)) ?it' (data @ [Data node]) = Done rows"
            using step None Inr Some Cons.prems(1) by simp
          have row: "row_of GM part kind k (Data node)"
            using Inr Some by (simp add: row_of_def)
          show ?thesis
          proof (cases "limit = - 1")
            case True
            from Cons.hyps(1) [of ?it' "wrap64 (i + 1)" "data @ [Data node]"] rec True
            obtain ds where "rows = (data @ [Data node]) @ ds"
              "list_all2 (row_of GM part kind) (map fst rest) ds" by auto
            then show ?thesis using True pend row by simp
          next
            case lim: False
            from Cons.prems(2) lim
            have rng: "0 \<le> offset" "0 \<le> limit" "offset \<le> i" "i \<le> offset + limit" "offset + limit < 2 ^ 63"
              by simp_all
            from False lim have "\<not> i > offset + limit - 1"
              using bound_unwrap [OF rng(1,2,5)] by simp
            then have lt: "i < offset + limit" by simp
            have w: "wrap64 (i + 1) = i + 1" using rng lt by (intro wrap64_id) simp_all
            have n: "nat (offset + limit - i) = Suc (nat (offset + limit - (i + 1)))" using lt by simp
            from Cons.hyps(1) [of ?it' "i + 1" "data @ [Data node]"] rec lim rng lt w
            obtain ds where "rows = (data @ [Data node]) @ ds"
              "list_all2 (row_of GM part kind) (map fst (take (nat (offset + limit - (i + 1))) rest)) ds"
              by auto
            then show ?thesis using lim pend row n by simp
          qed
        qed
      qed
    qed
  qed
qed

lemma yield_loop_runs:
  assumes "no_fault (pending it)"
    and "\<forall>k \<in> set (map fst (pending it)). \<exists>node. FetchNode GM part k kind = Inr (Some node)"
  shows "\<exists>rows. yield_loop GM part kind limit offset i it data = Done rows"
  using assms
proof (induction "pending it" arbitrary: it i data)
  case Nil
  then show ?case by (simp add: yield_loop_stop [OF Nil.hyps [symmetric]])
next
  case (Cons p rest)
  obtain k e where p: "p = (k, e)" by (cases p)
  have pend: "pending it = (k, e) # rest" using Cons.hyps(2) p by simp
  show ?case
  proof (cases "limit \<noteq> - 1 \<and> i > wrap64 (wrap64 (offset + limit) - 1)")
    case True
    then show ?thesis by (simp add: yield_loop_break)
  next
    case False
    have e: "e = None" using Cons.prems(1) pend by (simp add: no_fault_def)
    obtain node where node: "FetchNode GM part k kind = Inr (Some node)"
      using Cons.prems(2) pend by auto
    let ?it' = "\<lparr>pending = rest, LastError = e\<rparr>"
    have step: "yield_loop GM part kind limit offset i it data =
        yield_loop GM part kind limit offset (wrap64 (i + 1)) ?it' (data @ [Data node])"
      using yield_loop_step [OF pend False, of GM part kind data] e node by simp
    have "no_fault (pending ?it')" using Cons.prems(1) pend by (simp add: no_fault_def)
    moreover have "\<forall>k \<in> set (map fst (pending ?it')).
        \<exists>node. FetchNode GM part k kind = Inr (Some node)"
      using Cons.prems(2) pend by simp
    ultimately show ?thesis
      using Cons.hyps(1) [of ?it' "wrap64 (i + 1)" "data @ [Data node]"] step by simp
  qed
qed

subsection \<open>The list of the nodes of a kind\<close>

lemma HandleGET_is_list:
  "HandleGET fmt maxAlloc GM r [part, ''n'', kind] = HandleGET_list maxAlloc GM r [part, ''n'', kind]"
  by (simp add: HandleGET_def checkResources_def)

lemma unset_offset_is_zero:
  fixes GM :: "'v graph_manager"
  shows "HandleGET_list maxAlloc GM (r\<lparr>Query := (Query r)(''offset'' := NotGiven)\<rparr>) resources =
   HandleGET_list maxAlloc GM (r\<lparr>Query := (Query r)(''offset'' := Given 0)\<rparr>) resources"
proof -
  let ?a = "r\<lparr>Query := (Query r)(''offset'' := NotGiven)\<rparr>"
  let ?b = "r\<lparr>Query := (Query r)(''offset'' := Given 0)\<rparr>"
  have l: "(queryParamPosNum ?a ''limit'' :: 'v response + int) = queryParamPosNum ?b ''limit''"
    by (simp add: queryParamPosNum_def)
  have a: "(queryParamPosNum ?a ''offset'' :: 'v response + int) = Inr (- 1)"
    by (simp add: queryParamPosNum_def)
  have b: "(queryParamPosNum ?b ''offset'' :: 'v response + int) = Inr 0"
    by (simp add: queryParamPosNum_def)
  show ?thesis
    unfolding HandleGET_list_def l a b
    by (simp add: skip_loop_zero split: sum.splits option.splits)
qed

lemma HandleGET_list_ok:
  fixes GM :: "'v graph_manager"
  assumes "HandleGET_list maxAlloc GM r resources = Responded resp" and "status resp = StatusOK"
    and "resources ! 0 = part" and "resources ! 2 = kind"
  shows "\<exists>limit offset it rows.
     ((Query r ''limit'' = NotGiven \<and> limit = - 1) \<or>
        (Query r ''limit'' = Given limit \<and> 0 \<le> limit \<and> limit < 2 ^ 63 \<and> makeslice_ok maxAlloc limit)) \<and>
     ((Query r ''offset'' = NotGiven \<and> offset = 0) \<or>
        (Query r ''offset'' = Given offset \<and> 0 \<le> offset \<and> offset < 2 ^ 63)) \<and>
     NodeKeyIterator GM part kind = Inr (Some it) \<and>
     fst (skip_loop 0 offset it) = (None :: 'v response option) \<and>
     yield_loop GM part kind limit offset offset (snd (skip_loop 0 offset it :: 'v response option \<times> iterator)) [] = Done rows \<and>
     resp = \<lparr>status = StatusOK,
              headers = [(HTTPHeaderTotalCount, FormatUint (NodeCount GM kind)),
                         (''content-type'', ''application/json; charset=utf-8'')],
              body = Json (JArray (map JObject rows))\<rparr>"
proof -
  obtain limit where l: "(queryParamPosNum r ''limit'' :: 'v response + int) = Inr limit"
  proof (cases "queryParamPosNum r ''limit'' :: 'v response + int")
    case (Inl e)
    then have "HandleGET_list maxAlloc GM r resources = Responded e"
      by (simp add: HandleGET_list_def)
    with assms(1,2) queryParamPosNum_Inl [OF Inl] show ?thesis by auto
  qed
  obtain offset0 where o: "(queryParamPosNum r ''offset'' :: 'v response + int) = Inr offset0"
  proof (cases "queryParamPosNum r ''offset'' :: 'v response + int")
    case (Inl e)
    then have "HandleGET_list maxAlloc GM r resources = Responded e"
      by (simp add: HandleGET_list_def l)
    with assms(1,2) queryParamPosNum_Inl [OF Inl] show ?thesis by auto
  qed
  obtain it where it: "NodeKeyIterator GM part kind = Inr (Some it)"
  proof (cases "NodeKeyIterator GM part kind")
    case (Inl e)
    then have "HandleGET_list maxAlloc GM r resources = Responded (http_Error e StatusInternalServerError)"
      by (simp add: HandleGET_list_def l o assms(3,4))
    with assms(1,2) show ?thesis by auto
  next
    case (Inr x)
    show ?thesis
    proof (cases x)
      case None
      with Inr have "HandleGET_list maxAlloc GM r resources =
          Responded (http_Error ''Unknown partition or node kind'' StatusBadRequest)"
        by (simp add: HandleGET_list_def l o assms(3,4))
      with assms(1,2) show ?thesis by auto
    next
      case (Some a)
      with Inr that show ?thesis by simp
    qed
  qed
  define offset where "offset = (if offset0 = - 1 then 0 else offset0)"
  define sk :: "'v response option \<times> iterator" where "sk = skip_loop 0 offset it"
  have sk_eq: "(if offset0 \<noteq> - 1 then (skip_loop 0 offset0 it, offset0) else ((None, it), 0)) = (sk, offset)"
    by (simp add: sk_def offset_def skip_loop_zero)
  have body: "HandleGET_list maxAlloc GM r resources =
    (case (sk, offset) of
        ((Some e, it'), offset') \<Rightarrow> Responded e
      | ((None, it'), offset') \<Rightarrow>
          if limit \<noteq> - 1 \<and> \<not> makeslice_ok maxAlloc limit then Panicked
          else
            (case yield_loop GM part kind limit offset' offset' it' [] of
               Failed e \<Rightarrow> Responded e
             | Crashed \<Rightarrow> Panicked
             | Done data \<Rightarrow>
                 Responded
                   \<lparr>status = StatusOK,
                    headers =
                      [(HTTPHeaderTotalCount, FormatUint (NodeCount GM kind)),
                       (''content-type'', ''application/json; charset=utf-8'')],
                    body = Json (JArray (map JObject data))\<rparr>))"
    unfolding HandleGET_list_def l o assms(3,4) it sk_eq [symmetric] by simp
  obtain e it' where skp: "sk = (e, it')" by (cases sk)
  have e: "e = None"
  proof (cases e)
    case (Some x)
    then have "fst (skip_loop 0 offset it) = Some x" using skp by (simp add: sk_def)
    from skip_loop_error_status [OF this] have "status x = StatusInternalServerError" by simp
    moreover have "resp = x" using assms(1) body skp Some by simp
    ultimately show ?thesis using assms(2) by simp
  qed simp
  have mk: "limit = - 1 \<or> makeslice_ok maxAlloc limit"
    using assms(1) body skp e by (auto split: if_splits)
  obtain rows where y: "yield_loop GM part kind limit offset offset it' [] = Done rows"
    and resp: "resp = \<lparr>status = StatusOK,
              headers = [(HTTPHeaderTotalCount, FormatUint (NodeCount GM kind)),
                         (''content-type'', ''application/json; charset=utf-8'')],
              body = Json (JArray (map JObject rows))\<rparr>"
  proof (cases "yield_loop GM part kind limit offset offset it' []")
    case (Done rows)
    then show ?thesis using assms(1) body skp e mk that by (auto split: if_splits)
  next
    case (Failed x)
    then have "resp = x" using assms(1) body skp e mk by (auto split: if_splits)
    moreover have "status x = StatusInternalServerError" using Failed by (rule yield_loop_Failed)
    ultimately show ?thesis using assms(2) by simp
  next
    case Crashed
    then show ?thesis using assms(1) body skp e mk by (auto split: if_splits)
  qed
  have lim_fact: "(Query r ''limit'' = NotGiven \<and> limit = - 1) \<or>
        (Query r ''limit'' = Given limit \<and> 0 \<le> limit \<and> limit < 2 ^ 63 \<and> makeslice_ok maxAlloc limit)"
    using queryParamPosNum_Inr [OF l] mk by auto
  have off_fact: "(Query r ''offset'' = NotGiven \<and> offset = 0) \<or>
        (Query r ''offset'' = Given offset \<and> 0 \<le> offset \<and> offset < 2 ^ 63)"
    using queryParamPosNum_Inr [OF o] by (auto simp: offset_def)
  have sk1: "fst (skip_loop 0 offset it) = (None :: 'v response option)"
    using skp e by (simp add: sk_def)
  have sk2: "snd (skip_loop 0 offset it :: 'v response option \<times> iterator) = it'"
    using skp by (simp add: sk_def)
  show ?thesis
    using lim_fact off_fact it sk1 y resp unfolding sk2 [symmetric] by blast
qed

lemma HandleGET_list_runs:
  fixes GM :: "'v graph_manager"
  assumes it: "NodeKeyIterator GM part kind = Inr (Some it)"
    and pop: "length (pending it) < 2 ^ 62"
    and lim: "Query r ''limit'' = NotGiven \<or>
        (\<exists>L. Query r ''limit'' = Given L \<and> makeslice_ok maxAlloc L)"
    and ofs: "Query r ''offset'' = NotGiven \<or>
        (\<exists>n. Query r ''offset'' = Given (int n) \<and> n \<le> length (pending it))"
    and nf: "no_fault (pending it)"
    and f: "\<forall>k \<in> set (map fst (pending it)). \<exists>node. FetchNode GM part k kind = Inr (Some node)"
  shows "\<exists>resp. HandleGET fmt maxAlloc GM r [part, ''n'', kind] = Responded resp \<and>
           status resp = StatusOK"
proof -
  obtain limit where l: "(queryParamPosNum r ''limit'' :: 'v response + int) = Inr limit"
    and mk: "limit = - 1 \<or> makeslice_ok maxAlloc limit"
    using lim by (auto simp: queryParamPosNum_def makeslice_ok_def)
  obtain offset0 n where o: "(queryParamPosNum r ''offset'' :: 'v response + int) = Inr offset0"
    and n: "(if offset0 = - 1 then 0 else offset0) = int n" "n \<le> length (pending it)"
  proof (cases "Query r ''offset'' = NotGiven")
    case True
    then have "(queryParamPosNum r ''offset'' :: 'v response + int) = Inr (- 1)"
      by (simp add: queryParamPosNum_def)
    then show ?thesis using that [of "- 1" 0] by simp
  next
    case False
    with ofs obtain n where q: "Query r ''offset'' = Given (int n)" and le: "n \<le> length (pending it)"
      by blast
    from le pop have "int n < 2 ^ 62" by (simp add: nat_less_iff [symmetric])
    then have "int n < 2 ^ 63" by simp
    then have "(queryParamPosNum r ''offset'' :: 'v response + int) = Inr (int n)"
      using q by (simp add: queryParamPosNum_def)
    then show ?thesis using that [of "int n" n] le by simp
  qed
  define sk :: "'v response option \<times> iterator" where "sk = skip_loop 0 (int n) it"
  have sk_eq: "(if offset0 \<noteq> - 1 then (skip_loop 0 offset0 it, offset0) else ((None, it), 0)) =
      (sk, int n)"
    using n(1) by (auto simp: sk_def skip_loop_zero split: if_splits)
  have nf': "no_fault (take (nat (int n - 0)) (pending it))"
    using nf by (simp add: no_fault_def list_all_iff) (meson in_set_takeD)
  have fst_sk: "fst sk = None"
    using skip_loop_result [OF nf' refl, where 'a = 'v] n(2) by (simp add: sk_def)
  have pend_sk: "pending (snd sk) = drop n (pending it)"
    using skip_loop_pending [OF nf' refl, where 'a = 'v] by (simp add: sk_def)
  obtain it' where skp: "sk = (None, it')" and pit': "pending it' = drop n (pending it)"
    using fst_sk pend_sk by (cases sk) simp
  have "no_fault (pending it')"
    using nf by (simp add: pit' no_fault_def list_all_iff) (meson in_set_dropD)
  moreover have "\<forall>k \<in> set (map fst (pending it')).
      \<exists>node. FetchNode GM part k kind = Inr (Some node)"
    using f by (simp add: pit') (meson in_set_dropD)
  ultimately obtain rows where
    y: "yield_loop GM part kind limit (int n) (int n) it' [] = Done rows"
    using yield_loop_runs by blast
  have "HandleGET_list maxAlloc GM r [part, ''n'', kind] =
      Responded
        \<lparr>status = StatusOK,
         headers =
           [(HTTPHeaderTotalCount, FormatUint (NodeCount GM kind)),
            (''content-type'', ''application/json; charset=utf-8'')],
         body = Json (JArray (map JObject rows))\<rparr>"
    unfolding HandleGET_list_def l o
    using mk by (simp add: it sk_eq skp y)
  then show ?thesis by (simp add: HandleGET_is_list)
qed

subsection \<open>The handler on the small graph\<close>

lemma example_params:
  "(queryParamPosNum (example_request (Given 2) (Given 1)) ''limit'' :: string response + int) = Inr 2"
  "(queryParamPosNum (example_request (Given 2) (Given 1)) ''offset'' :: string response + int) = Inr 1"
  "(queryParamPosNum (example_request NotGiven NotGiven) ''limit'' :: string response + int) = Inr (- 1)"
  "(queryParamPosNum (example_request NotGiven NotGiven) ''offset'' :: string response + int) = Inr (- 1)"
  by (simp_all add: queryParamPosNum_def example_request_def)

lemma example_iterators:
  "NodeKeyIterator example_GM ''main'' ''Person'' = Inr (Some example_iterator)"
  "NodeKeyIterator example_GM ''second'' ''Person'' =
     Inr (Some \<lparr>pending = [(''6'', None)], LastError = None\<rparr>)"
  by (simp_all add: example_GM_def)

lemma example_count: "FormatUint (NodeCount example_GM ''Person'') = ''6''"
  by (simp add: example_GM_def FormatUint_def digit_def digits_def)

lemma example_fetch: "FetchNode example_GM part key ''Person'' = Inr (Some (person key))"
  by (simp add: example_GM_def)

lemma example_skip:
  "(skip_loop 0 1 example_iterator :: string response option \<times> iterator) =
     (None, \<lparr>pending = [(''2'', None), (''3'', None), (''4'', None), (''5'', None)],
             LastError = None\<rparr>)"
  by (simp add: example_iterator_def skip_loop_Cons)

lemma example_yield:
  "yield_loop example_GM ''main'' ''Person'' 2 1 1
     \<lparr>pending = [(''2'', None), (''3'', None), (''4'', None), (''5'', None)], LastError = None\<rparr> [] =
   Done [Data (person ''2''), Data (person ''3'')]"
  by (simp add: yield_loop_Cons example_fetch wrap64_def)

lemma example_yield_all:
  "yield_loop example_GM ''main'' ''Person'' (- 1) 0 0 example_iterator [] =
   Done [Data (person ''1''), Data (person ''2''), Data (person ''3''), Data (person ''4''),
     Data (person ''5'')]"
  by (simp add: example_iterator_def yield_loop_Cons yield_loop_Nil example_fetch)

lemma example_yield_6:
  "yield_loop example_GM ''second'' ''Person'' (- 1) 0 0
     \<lparr>pending = [(''6'', None)], LastError = None\<rparr> [] = Done [Data (person ''6'')]"
  by (simp add: yield_loop_Cons yield_loop_Nil example_fetch)

lemma example_page_2_3:
  "HandleGET Sprint_string (2 ^ 48) example_GM (example_request (Given 2) (Given 1))
     [''main'', ''n'', ''Person''] = Responded page_2_3"
  by (simp add: HandleGET_is_list HandleGET_list_def example_params example_iterators
      example_skip example_yield example_count makeslice_ok_def page_2_3_def)

lemma example_page_6:
  "HandleGET Sprint_string (2 ^ 48) example_GM (example_request NotGiven NotGiven)
     [''second'', ''n'', ''Person''] = Responded page_6"
  by (simp add: HandleGET_is_list HandleGET_list_def example_params example_iterators
      example_yield_6 example_count page_6_def)

subsection \<open>Offset and limit\<close>

text \<open>
  C3. Take a list request for the nodes of a kind whose offset parameter is \<open>n\<close>, over an
  iterator that holds \<open>P\<close> keys (the limit parameter being absent or well-formed).
  When the iterator reports no error on the keys to be skipped, the skip loop consumes exactly
  \<open>min n P\<close> keys, it succeeds if \<open>n \<le> P\<close>, and if \<open>n > P\<close> the request fails with
  the server error "Offset exceeds available nodes". Whatever the iterator reports, a request
  with \<open>n > P\<close> is answered with a server error and no rows, every successful response has
  \<open>n \<le> P\<close>, and its rows are the rows of the keys that follow the first \<open>n\<close>, beginning
  with key number \<open>n + 1\<close>. A request without an offset parameter is answered as one with
  offset 0.
\<close>

theorem offset_skip:
  fixes GM :: "'v graph_manager"
  assumes it: "NodeKeyIterator GM part kind = Inr (Some it)"
    and ofs: "Query r ''offset'' = Given (int n)" "int n < 2 ^ 63"
    and lim: "Query r ''limit'' = NotGiven \<or>
        (\<exists>L. Query r ''limit'' = Given L \<and> 0 \<le> L \<and> L < 2 ^ 63)"
  shows "(no_fault (take n (pending it)) \<longrightarrow>
            pending (snd (skip_loop 0 (int n) it :: 'v response option \<times> iterator)) =
              drop (min n (length (pending it))) (pending it) \<and>
            (n \<le> length (pending it) \<longrightarrow>
               fst (skip_loop 0 (int n) it :: 'v response option \<times> iterator) = None) \<and>
            (length (pending it) < n \<longrightarrow>
               HandleGET fmt maxAlloc GM r [part, ''n'', kind] =
                 Responded
                   (http_Error ''Offset exceeds available nodes'' StatusInternalServerError))) \<and>
         (length (pending it) < n \<longrightarrow>
            (\<exists>e m. HandleGET fmt maxAlloc GM r [part, ''n'', kind] = Responded e \<and>
               status e = StatusInternalServerError \<and> server_error (status e) \<and>
               body e = ErrorText m)) \<and>
         (\<forall>resp. HandleGET fmt maxAlloc GM r [part, ''n'', kind] = Responded resp \<and>
              status resp = StatusOK \<longrightarrow>
            n \<le> length (pending it) \<and>
            (\<exists>rows. body resp = Json (JArray (map JObject rows)) \<and>
               list_all2 (row_of GM part kind)
                 (map fst (take (length rows) (drop n (pending it)))) rows)) \<and>
         HandleGET fmt maxAlloc GM (r\<lparr>Query := (Query r)(''offset'' := NotGiven)\<rparr>)
             [part, ''n'', kind] =
           HandleGET fmt maxAlloc GM (r\<lparr>Query := (Query r)(''offset'' := Given 0)\<rparr>)
             [part, ''n'', kind]"
proof -
  let ?sk = "skip_loop 0 (int n) it :: 'v response option \<times> iterator"
  obtain limit where l: "(queryParamPosNum r ''limit'' :: 'v response + int) = Inr limit"
    using lim by (auto simp: queryParamPosNum_def)
  have o: "(queryParamPosNum r ''offset'' :: 'v response + int) = Inr (int n)"
    using ofs by (simp add: queryParamPosNum_def)
  have failed: "HandleGET fmt maxAlloc GM r [part, ''n'', kind] = Responded e"
    if "fst ?sk = Some e" for e
  proof -
    from that obtain it' where "?sk = (Some e, it')" by (cases ?sk) simp
    then show ?thesis unfolding HandleGET_is_list by (simp add: HandleGET_list_def l o it)
  qed
  have a: "pending (snd ?sk) = drop (min n (length (pending it))) (pending it) \<and>
      (n \<le> length (pending it) \<longrightarrow> fst ?sk = None) \<and>
      (length (pending it) < n \<longrightarrow>
         HandleGET fmt maxAlloc GM r [part, ''n'', kind] =
           Responded (http_Error ''Offset exceeds available nodes'' StatusInternalServerError))"
    if nf: "no_fault (take n (pending it))"
  proof -
    have nf': "no_fault (take (nat (int n - 0)) (pending it))" using nf by simp
    have 1: "pending (snd ?sk) = drop (min n (length (pending it))) (pending it)"
      using skip_loop_pending [OF nf' refl, where 'a = 'v] by (simp add: min_def)
    have res: "fst ?sk =
       (if n \<le> length (pending it) then None
        else Some (http_Error ''Offset exceeds available nodes'' StatusInternalServerError))"
      using skip_loop_result [OF nf' refl, where 'a = 'v] by simp
    have 3: "HandleGET fmt maxAlloc GM r [part, ''n'', kind] =
        Responded (http_Error ''Offset exceeds available nodes'' StatusInternalServerError)"
      if "length (pending it) < n"
      using that res by (intro failed) simp
    from 1 res 3 show ?thesis by simp
  qed
  have b: "\<exists>e m. HandleGET fmt maxAlloc GM r [part, ''n'', kind] = Responded e \<and>
      status e = StatusInternalServerError \<and> server_error (status e) \<and> body e = ErrorText m"
    if short: "length (pending it) < n"
  proof (cases "fst ?sk")
    case None
    from skip_loop_None [OF None] short show ?thesis by simp
  next
    case (Some e)
    from skip_loop_error_status [OF Some] failed [OF Some] show ?thesis
      by (auto simp: server_error_def StatusInternalServerError_def)
  qed
  have c: "n \<le> length (pending it) \<and>
      (\<exists>rows. body resp = Json (JArray (map JObject rows)) \<and>
         list_all2 (row_of GM part kind) (map fst (take (length rows) (drop n (pending it)))) rows)"
    if ok: "HandleGET fmt maxAlloc GM r [part, ''n'', kind] = Responded resp \<and>
      status resp = StatusOK" for resp
  proof -
    from ok have a: "HandleGET_list maxAlloc GM r [part, ''n'', kind] = Responded resp"
      and b: "status resp = StatusOK" by (simp_all add: HandleGET_is_list)
    from HandleGET_list_ok [OF a b, of part kind]
    obtain limit offset it' rows where
      offc: "(Query r ''offset'' = NotGiven \<and> offset = 0) \<or>
        (Query r ''offset'' = Given offset \<and> 0 \<le> offset \<and> offset < 2 ^ 63)"
      and it': "NodeKeyIterator GM part kind = Inr (Some it')"
      and sk: "fst (skip_loop 0 offset it' :: 'v response option \<times> iterator) = None"
      and y: "yield_loop GM part kind limit offset offset
          (snd (skip_loop 0 offset it' :: 'v response option \<times> iterator)) [] = Done rows"
      and resp: "resp = \<lparr>status = StatusOK,
              headers = [(HTTPHeaderTotalCount, FormatUint (NodeCount GM kind)),
                         (''content-type'', ''application/json; charset=utf-8'')],
              body = Json (JArray (map JObject rows))\<rparr>"
      by auto
    have [simp]: "it' = it" using it it' by simp
    have [simp]: "offset = int n" using offc ofs by simp
    from skip_loop_None [OF sk]
    have le: "n \<le> length (pending it)"
      and pend: "pending (snd (skip_loop 0 offset it' :: 'v response option \<times> iterator)) =
        drop n (pending it)"
      by simp_all
    from yield_loop_prefix [OF y] pend
    have "list_all2 (row_of GM part kind) (map fst (take (length rows) (drop n (pending it)))) rows"
      by simp
    with le resp show ?thesis by auto
  qed
  have d: "HandleGET fmt maxAlloc GM (r\<lparr>Query := (Query r)(''offset'' := NotGiven)\<rparr>)
             [part, ''n'', kind] =
           HandleGET fmt maxAlloc GM (r\<lparr>Query := (Query r)(''offset'' := Given 0)\<rparr>)
             [part, ''n'', kind]"
    unfolding HandleGET_is_list by (rule unset_offset_is_zero)
  from a b c d show ?thesis by blast
qed

theorem offset_skip_witness:
  "pending (snd (skip_loop 0 1 example_iterator :: string response option \<times> iterator)) =
     [(''2'', None), (''3'', None), (''4'', None), (''5'', None)] \<and>
   fst (skip_loop 0 1 example_iterator :: string response option \<times> iterator) = None \<and>
   HandleGET Sprint_string (2 ^ 48) example_GM (example_request (Given 2) (Given 1))
       [''main'', ''n'', ''Person''] = Responded page_2_3"
proof -
  have q: "Query (example_request (Given 2) (Given 1)) ''offset'' = Given (int 1)" "int 1 < 2 ^ 63"
    by (simp_all add: example_request_def)
  have l: "Query (example_request (Given 2) (Given 1)) ''limit'' = NotGiven \<or>
      (\<exists>L. Query (example_request (Given 2) (Given 1)) ''limit'' = Given L \<and> 0 \<le> L \<and> L < 2 ^ 63)"
    by (simp add: example_request_def)
  have nf: "no_fault (take 1 (pending example_iterator))"
    by (simp add: no_fault_def example_iterator_def)
  have le: "1 \<le> length (pending example_iterator)"
    by (simp add: example_iterator_def)
  from offset_skip [OF example_iterators(1) q l, where fmt = Sprint_string and maxAlloc = "2 ^ 48"]
    nf le
  have "pending (snd (skip_loop 0 (int 1) example_iterator :: string response option \<times> iterator)) =
      drop (min 1 (length (pending example_iterator))) (pending example_iterator) \<and>
    fst (skip_loop 0 (int 1) example_iterator :: string response option \<times> iterator) = None"
    by blast
  then show ?thesis using example_page_2_3 by (simp add: example_iterator_def)
qed

lemma limit_rows_page:
  fixes GM :: "'v graph_manager"
  assumes it: "NodeKeyIterator GM part kind = Inr (Some it)"
    and pop: "length (pending it) < 2 ^ 62"
    and run: "HandleGET fmt maxAlloc GM r [part, ''n'', kind] = Responded resp"
    and ok: "status resp = StatusOK"
  shows "\<exists>rows. body resp = Json (JArray (map JObject rows)) \<and>
     (\<forall>L. Query r ''limit'' = Given L \<longrightarrow>
        length rows \<le> nat L \<and>
        length rows = min (nat L) (length (pending it) - skip_count (Query r ''offset'')) \<and>
        list_all2 (row_of GM part kind)
          (map fst (take (nat L) (drop (skip_count (Query r ''offset'')) (pending it)))) rows) \<and>
     (Query r ''limit'' = NotGiven \<longrightarrow>
        length rows = length (pending it) - skip_count (Query r ''offset'') \<and>
        list_all2 (row_of GM part kind)
          (map fst (drop (skip_count (Query r ''offset'')) (pending it))) rows)"
proof -
  from run have a: "HandleGET_list maxAlloc GM r [part, ''n'', kind] = Responded resp"
    by (simp add: HandleGET_is_list)
  from HandleGET_list_ok [OF a ok, of part kind]
  obtain limit offset it' rows where
    limc: "(Query r ''limit'' = NotGiven \<and> limit = - 1) \<or>
        (Query r ''limit'' = Given limit \<and> 0 \<le> limit \<and> limit < 2 ^ 63 \<and> makeslice_ok maxAlloc limit)"
    and offc: "(Query r ''offset'' = NotGiven \<and> offset = 0) \<or>
        (Query r ''offset'' = Given offset \<and> 0 \<le> offset \<and> offset < 2 ^ 63)"
    and it': "NodeKeyIterator GM part kind = Inr (Some it')"
    and sk: "fst (skip_loop 0 offset it' :: 'v response option \<times> iterator) = None"
    and y: "yield_loop GM part kind limit offset offset (snd (skip_loop 0 offset it' :: 'v response option \<times> iterator)) [] = Done rows"
    and resp: "resp = \<lparr>status = StatusOK,
              headers = [(HTTPHeaderTotalCount, FormatUint (NodeCount GM kind)),
                         (''content-type'', ''application/json; charset=utf-8'')],
              body = Json (JArray (map JObject rows))\<rparr>"
    by auto
  have [simp]: "it' = it" using it it' by simp
  have off0: "0 \<le> offset" using offc by auto
  have sc: "skip_count (Query r ''offset'') = nat offset"
    using offc by (auto simp: skip_count_def)
  from skip_loop_None [OF sk]
  have le: "nat offset \<le> length (pending it)"
    and pend: "pending (snd (skip_loop 0 offset it' :: 'v response option \<times> iterator)) = drop (nat offset) (pending it)"
    by simp_all
  from le pop have "nat offset < 2 ^ 62" by simp
  then have offb: "offset < 2 ^ 62" using off0 by (simp add: nat_less_iff)
  have rng: "limit = - 1 \<or> (0 \<le> offset \<and> 0 \<le> limit \<and> offset \<le> offset \<and> offset \<le> offset + limit \<and> offset + limit < 2 ^ 63)"
    using limc off0 offb by (auto simp: makeslice_ok_def)
  from yield_loop_Done [OF y rng] pend
  have rows: "list_all2 (row_of GM part kind)
       (map fst (take (if limit = - 1 then length (pending it) - nat offset else nat limit) (drop (nat offset) (pending it)))) rows"
    by (simp split: if_splits)
  have body: "body resp = Json (JArray (map JObject rows))" using resp by simp
  have given: "length rows \<le> nat L \<and>
        length rows = min (nat L) (length (pending it) - skip_count (Query r ''offset'')) \<and>
        list_all2 (row_of GM part kind)
          (map fst (take (nat L) (drop (skip_count (Query r ''offset'')) (pending it)))) rows"
    if "Query r ''limit'' = Given L" for L
  proof -
    from that limc have [simp]: "limit = L" and "0 \<le> L" by auto
    then have "limit \<noteq> - 1" by simp
    with rows have r: "list_all2 (row_of GM part kind) (map fst (take (nat L) (drop (nat offset) (pending it)))) rows"
      by simp
    from list_all2_lengthD [OF r] have "length rows = min (nat L) (length (pending it) - nat offset)"
      by (auto simp: min_def split: if_splits)
    with r show ?thesis by (simp add: sc)
  qed
  have unset: "length rows = length (pending it) - skip_count (Query r ''offset'') \<and>
        list_all2 (row_of GM part kind)
          (map fst (drop (skip_count (Query r ''offset'')) (pending it))) rows"
    if "Query r ''limit'' = NotGiven"
  proof -
    from that limc have "limit = - 1" by auto
    with rows have r: "list_all2 (row_of GM part kind) (map fst (drop (nat offset) (pending it))) rows"
      by simp
    from list_all2_lengthD [OF r] r show ?thesis by (simp add: sc)
  qed
  show ?thesis using body given unset by blast
qed

text \<open>
  C4. Take a list request over an iterator that holds \<open>P\<close> keys (fewer than \<open>2 ^ 62\<close>),
  and let \<open>n\<close> be its offset (0 when absent). Whenever the request is answered with success:
  with a limit parameter \<open>L\<close>, the array of the response has at most \<open>L\<close> elements, exactly
  \<open>min L (P - n)\<close>, the rows of the first \<open>L\<close> keys after the offset; without a limit
  parameter the array holds the rows of all the keys after the offset. And the request is
  answered with success when the offset is at most \<open>P\<close>, the limit is absent or a capacity
  that can be allocated, the iterator reports no error and every key is fetched.
\<close>

theorem limit_rows:
  fixes GM :: "'v graph_manager"
  assumes it: "NodeKeyIterator GM part kind = Inr (Some it)"
    and pop: "length (pending it) < 2 ^ 62"
  shows "(\<forall>resp. HandleGET fmt maxAlloc GM r [part, ''n'', kind] = Responded resp \<and>
              status resp = StatusOK \<longrightarrow>
            (\<exists>rows. body resp = Json (JArray (map JObject rows)) \<and>
               (\<forall>L. Query r ''limit'' = Given L \<longrightarrow>
                  length rows \<le> nat L \<and>
                  length rows = min (nat L) (length (pending it) - skip_count (Query r ''offset'')) \<and>
                  list_all2 (row_of GM part kind)
                    (map fst (take (nat L) (drop (skip_count (Query r ''offset'')) (pending it))))
                    rows) \<and>
               (Query r ''limit'' = NotGiven \<longrightarrow>
                  length rows = length (pending it) - skip_count (Query r ''offset'') \<and>
                  list_all2 (row_of GM part kind)
                    (map fst (drop (skip_count (Query r ''offset'')) (pending it))) rows))) \<and>
         ((Query r ''limit'' = NotGiven \<or>
             (\<exists>L. Query r ''limit'' = Given L \<and> makeslice_ok maxAlloc L)) \<and>
          (Query r ''offset'' = NotGiven \<or>
             (\<exists>n. Query r ''offset'' = Given (int n) \<and> n \<le> length (pending it))) \<and>
          no_fault (pending it) \<and>
          (\<forall>k \<in> set (map fst (pending it)). \<exists>node. FetchNode GM part k kind = Inr (Some node)) \<longrightarrow>
          (\<exists>resp. HandleGET fmt maxAlloc GM r [part, ''n'', kind] = Responded resp \<and>
             status resp = StatusOK))"
proof (intro conjI allI impI)
  fix resp
  assume "HandleGET fmt maxAlloc GM r [part, ''n'', kind] = Responded resp \<and>
      status resp = StatusOK"
  then show "\<exists>rows. body resp = Json (JArray (map JObject rows)) \<and>
       (\<forall>L. Query r ''limit'' = Given L \<longrightarrow>
          length rows \<le> nat L \<and>
          length rows = min (nat L) (length (pending it) - skip_count (Query r ''offset'')) \<and>
          list_all2 (row_of GM part kind)
            (map fst (take (nat L) (drop (skip_count (Query r ''offset'')) (pending it))))
            rows) \<and>
       (Query r ''limit'' = NotGiven \<longrightarrow>
          length rows = length (pending it) - skip_count (Query r ''offset'') \<and>
          list_all2 (row_of GM part kind)
            (map fst (drop (skip_count (Query r ''offset'')) (pending it))) rows)"
    using limit_rows_page [OF it pop] by blast
next
  assume "(Query r ''limit'' = NotGiven \<or>
             (\<exists>L. Query r ''limit'' = Given L \<and> makeslice_ok maxAlloc L)) \<and>
          (Query r ''offset'' = NotGiven \<or>
             (\<exists>n. Query r ''offset'' = Given (int n) \<and> n \<le> length (pending it))) \<and>
          no_fault (pending it) \<and>
          (\<forall>k \<in> set (map fst (pending it)). \<exists>node. FetchNode GM part k kind = Inr (Some node))"
  then show "\<exists>resp. HandleGET fmt maxAlloc GM r [part, ''n'', kind] = Responded resp \<and>
      status resp = StatusOK"
    using HandleGET_list_runs [OF it pop] by blast
qed

theorem limit_rows_witness:
  "HandleGET Sprint_string (2 ^ 48) example_GM (example_request (Given 2) (Given 1))
       [''main'', ''n'', ''Person''] = Responded page_2_3 \<and>
   (\<exists>rows. body page_2_3 = Json (JArray (map JObject rows)) \<and> length rows = 2 \<and>
      list_all2 (row_of example_GM ''main'' ''Person'') [''2'', ''3''] rows)"
proof -
  have pop: "length (pending example_iterator) < 2 ^ 62"
    by (simp add: example_iterator_def)
  have ok: "status page_2_3 = StatusOK" by (simp add: page_2_3_def)
  have lim: "Query (example_request (Given 2) (Given 1)) ''limit'' = Given 2"
    and sc: "skip_count (Query (example_request (Given 2) (Given 1)) ''offset'') = 1"
    by (simp_all add: example_request_def skip_count_def)
  from limit_rows [OF example_iterators(1) pop, of Sprint_string "2 ^ 48"
      "example_request (Given 2) (Given 1)"] example_page_2_3 ok lim
  obtain rows where "body page_2_3 = Json (JArray (map JObject rows))"
    and "length rows = min (nat 2) (length (pending example_iterator) - 1)"
    and "list_all2 (row_of example_GM ''main'' ''Person'')
          (map fst (take (nat 2) (drop 1 (pending example_iterator)))) rows"
    unfolding sc by blast
  then have "body page_2_3 = Json (JArray (map JObject rows)) \<and> length rows = 2 \<and>
      list_all2 (row_of example_GM ''main'' ''Person'') [''2'', ''3''] rows"
    by (simp add: example_iterator_def)
  then show ?thesis using example_page_2_3 by blast
qed

subsection \<open>The total count\<close>

text \<open>
  C8. Every successful response to a list request carries the total-count header, and its
  value is the decimal text of the number that the count capability \<open>NodeCount\<close> of the
  manager reports for the kind. A request that differs from it only in its limit and offset
  parameters and is also answered with success carries the same value.
\<close>

theorem total_count_header:
  fixes GM :: "'v graph_manager"
  assumes "HandleGET fmt maxAlloc GM r [part, ''n'', kind] = Responded resp"
    and "status resp = StatusOK"
    and "HandleGET fmt maxAlloc GM (r\<lparr>Query := (Query r)(''limit'' := l, ''offset'' := ofs)\<rparr>)
           [part, ''n'', kind] = Responded resp'"
    and "status resp' = StatusOK"
  shows "header resp HTTPHeaderTotalCount = Some (FormatUint (NodeCount GM kind)) \<and>
         header resp' HTTPHeaderTotalCount = header resp HTTPHeaderTotalCount"
proof -
  have "header x HTTPHeaderTotalCount = Some (FormatUint (NodeCount GM kind))"
    if "HandleGET fmt maxAlloc GM q [part, ''n'', kind] = Responded x" "status x = StatusOK"
    for q :: "'b request" and x
  proof -
    from that have a: "HandleGET_list maxAlloc GM q [part, ''n'', kind] = Responded x"
      by (simp add: HandleGET_is_list)
    from HandleGET_list_ok [OF a that(2), of part kind] show ?thesis
      by (auto simp: header_def)
  qed
  from this [OF assms(1,2)] this [OF assms(3,4)] show ?thesis by simp
qed

theorem total_count_header_witness:
  "HandleGET Sprint_string (2 ^ 48) example_GM (example_request (Given 2) (Given 1))
       [''main'', ''n'', ''Person''] = Responded page_2_3 \<and>
   header page_2_3 HTTPHeaderTotalCount = Some (FormatUint (NodeCount example_GM ''Person'')) \<and>
   header page_2_3 HTTPHeaderTotalCount = Some ''6''"
proof -
  have ok: "status page_2_3 = StatusOK" by (simp add: page_2_3_def)
  have same: "(example_request (Given 2) (Given 1))
          \<lparr>Query := (Query (example_request (Given 2) (Given 1)))
             (''limit'' := Given 2, ''offset'' := Given 1)\<rparr> = example_request (Given 2) (Given 1)"
    by (auto simp: example_request_def)
  have run': "HandleGET Sprint_string (2 ^ 48) example_GM
       ((example_request (Given 2) (Given 1))
          \<lparr>Query := (Query (example_request (Given 2) (Given 1)))
             (''limit'' := Given 2, ''offset'' := Given 1)\<rparr>)
       [''main'', ''n'', ''Person''] = Responded page_2_3"
    unfolding same by (rule example_page_2_3)
  from total_count_header [OF example_page_2_3 ok run' ok]
  show ?thesis using example_page_2_3 by (simp add: header_def page_2_3_def)
qed

text \<open>
  C10. The value of the total-count header is computed from the kind alone: two list
  requests for the same kind that are answered with success carry the same value, the
  count that \<open>NodeCount\<close> reports for the kind, whatever their partitions are.
\<close>

theorem total_count_by_kind:
  fixes GM :: "'v graph_manager"
  assumes "HandleGET fmt maxAlloc GM r [part, ''n'', kind] = Responded resp"
    and "status resp = StatusOK"
    and "HandleGET fmt maxAlloc GM r [part', ''n'', kind] = Responded resp'"
    and "status resp' = StatusOK"
  shows "header resp HTTPHeaderTotalCount = header resp' HTTPHeaderTotalCount \<and>
         header resp' HTTPHeaderTotalCount = Some (FormatUint (NodeCount GM kind))"
proof -
  from assms have a: "HandleGET_list maxAlloc GM r [part, ''n'', kind] = Responded resp"
    and b: "HandleGET_list maxAlloc GM r [part', ''n'', kind] = Responded resp'"
    by (simp_all add: HandleGET_is_list)
  from HandleGET_list_ok [OF a assms(2), of part kind]
  have 1: "header resp HTTPHeaderTotalCount = Some (FormatUint (NodeCount GM kind))"
    by (auto simp: header_def)
  from HandleGET_list_ok [OF b assms(4), of part' kind]
  have 2: "header resp' HTTPHeaderTotalCount = Some (FormatUint (NodeCount GM kind))"
    by (auto simp: header_def)
  from 1 2 show ?thesis by simp
qed

theorem total_count_by_kind_witness:
  "HandleGET Sprint_string (2 ^ 48) example_GM (example_request NotGiven NotGiven)
       [''second'', ''n'', ''Person''] = Responded page_6 \<and>
   body page_6 = Json (JArray [JObject (Data (person ''6''))]) \<and>
   header page_6 HTTPHeaderTotalCount = Some ''6''"
proof -
  have run': "HandleGET Sprint_string (2 ^ 48) example_GM (example_request NotGiven NotGiven)
       [''main'', ''n'', ''Person''] =
     Responded
       \<lparr>status = StatusOK,
        headers =
          [(HTTPHeaderTotalCount, ''6''), (''content-type'', ''application/json; charset=utf-8'')],
        body =
          Json (JArray [JObject (Data (person ''1'')), JObject (Data (person ''2'')),
            JObject (Data (person ''3'')), JObject (Data (person ''4'')),
            JObject (Data (person ''5''))])\<rparr>"
    by (simp add: HandleGET_is_list HandleGET_list_def example_params example_iterators
        example_yield_all example_count)
  have ok: "status page_6 = StatusOK" by (simp add: page_6_def)
  from total_count_by_kind [OF example_page_6 ok run']
  show ?thesis using example_page_6 by (simp add: header_def page_6_def example_count)
qed

subsection \<open>The shapes of a GET request\<close>

text \<open>
  C7, as amended. A GET of the shape \<^verbatim>\<open>/graph/{partition}/n/{kind}\<close> (three segments,
  entity type n) is handled as a list request: when it is answered with success, the
  response is a JSON array of attribute objects and carries the total-count header. A GET
  with two path segments, and a GET with three segments and the entity type e, are
  rejected with a client error.
\<close>

theorem list_request_shapes:
  fixes GM :: "'v graph_manager"
  shows "(length resources = 2 \<longrightarrow>
            HandleGET fmt maxAlloc GM r resources =
              Responded
                (http_Error
                   ''Need a partition, entity type (n or e) and a kind; optional key and traversal spec''
                   StatusBadRequest)) \<and>
         HandleGET fmt maxAlloc GM r [part, ''e'', kind] =
           Responded
             (http_Error ''Entity type must be n (nodes) when requesting all items''
                StatusBadRequest) \<and>
         client_error StatusBadRequest \<and>
         (\<forall>resp. HandleGET fmt maxAlloc GM r [part, ''n'', kind] = Responded resp \<and>
              status resp = StatusOK \<longrightarrow>
            (\<exists>rows. body resp = Json (JArray (map JObject rows))) \<and>
            header resp HTTPHeaderTotalCount = Some (FormatUint (NodeCount GM kind)))"
proof (intro conjI impI allI)
  assume "length resources = 2"
  then show "HandleGET fmt maxAlloc GM r resources =
      Responded
        (http_Error
           ''Need a partition, entity type (n or e) and a kind; optional key and traversal spec''
           StatusBadRequest)"
    by (simp add: HandleGET_def checkResources_def)
next
  show "HandleGET fmt maxAlloc GM r [part, ''e'', kind] =
      Responded
        (http_Error ''Entity type must be n (nodes) when requesting all items'' StatusBadRequest)"
    by (simp add: HandleGET_def checkResources_def)
next
  show "client_error StatusBadRequest"
    by (simp add: client_error_def StatusBadRequest_def)
next
  fix resp
  assume ok: "HandleGET fmt maxAlloc GM r [part, ''n'', kind] = Responded resp \<and>
      status resp = StatusOK"
  then have a: "HandleGET_list maxAlloc GM r [part, ''n'', kind] = Responded resp"
    and b: "status resp = StatusOK"
    by (simp_all add: HandleGET_is_list)
  from HandleGET_list_ok [OF a b, of part kind]
  obtain rows where resp: "resp = \<lparr>status = StatusOK,
      headers = [(HTTPHeaderTotalCount, FormatUint (NodeCount GM kind)),
                 (''content-type'', ''application/json; charset=utf-8'')],
      body = Json (JArray (map JObject rows))\<rparr>"
    by auto
  show "\<exists>rows. body resp = Json (JArray (map JObject rows))"
    using resp by auto
  show "header resp HTTPHeaderTotalCount = Some (FormatUint (NodeCount GM kind))"
    using resp by (simp add: header_def)
qed

theorem list_request_shapes_witness:
  "HandleGET Sprint_string (2 ^ 48) example_GM (example_request NotGiven NotGiven)
     [''main'', ''n''] =
     Responded
       (http_Error
          ''Need a partition, entity type (n or e) and a kind; optional key and traversal spec''
          StatusBadRequest) \<and>
   (\<exists>rows. body page_2_3 = Json (JArray (map JObject rows))) \<and>
   header page_2_3 HTTPHeaderTotalCount = Some (FormatUint (NodeCount example_GM ''Person''))"
proof -
  have len: "length [''main'', ''n''] = 2" by simp
  have ok: "status page_2_3 = StatusOK" by (simp add: page_2_3_def)
  note shapes =
    list_request_shapes [of "[''main'', ''n'']" Sprint_string "2 ^ 48" example_GM
      "example_request NotGiven NotGiven" "''main''" "''Person''"]
    list_request_shapes [of "[]" Sprint_string "2 ^ 48" example_GM
      "example_request (Given 2) (Given 1)" "''main''" "''Person''"]
  from shapes len example_page_2_3 ok show ?thesis by blast
qed

theorem list_of_edges_counterexample:
  "HandleGET Sprint_string (2 ^ 48) example_GM (example_request NotGiven NotGiven)
     [''main'', ''e'', ''Follows''] =
     Responded
       (http_Error ''Entity type must be n (nodes) when requesting all items'' StatusBadRequest) \<and>
   status
     (http_Error ''Entity type must be n (nodes) when requesting all items'' StatusBadRequest
        :: string response) \<noteq> StatusOK \<and>
   header
     (http_Error ''Entity type must be n (nodes) when requesting all items'' StatusBadRequest
        :: string response) HTTPHeaderTotalCount = None"
  by (simp add: HandleGET_def checkResources_def header_def http_Error_def)

subsection \<open>A single node or edge\<close>

text \<open>
  C9, as amended. When a GET for a single node or edge (four path segments) finds that
  the fetch capability reports no error and returns no entity, the handler responds with
  the status 400, a client error and not a server error.
\<close>

theorem single_entity_miss:
  fixes GM :: "'v graph_manager"
  shows "(FetchNode GM part key kind = Inr None \<longrightarrow>
            HandleGET fmt maxAlloc GM r [part, ''n'', kind, key] =
              Responded (http_Error ''Unknown partition or node kind'' StatusBadRequest)) \<and>
         (FetchEdge GM part key kind = Inr None \<longrightarrow>
            HandleGET fmt maxAlloc GM r [part, ''e'', kind, key] =
              Responded (http_Error ''Unknown partition or edge kind'' StatusBadRequest)) \<and>
         client_error StatusBadRequest \<and> \<not> server_error StatusBadRequest"
  by (simp add: HandleGET_def checkResources_def HandleGET_single_def client_error_def
      server_error_def StatusBadRequest_def)

theorem single_entity_miss_witness:
  "FetchNode example_GM ''main'' ''1'' ''Robot'' = Inr None \<and>
   FetchEdge example_GM ''main'' ''1b'' ''Follows'' = Inr None \<and>
   HandleGET Sprint_string (2 ^ 48) example_GM (example_request NotGiven NotGiven)
     [''main'', ''n'', ''Robot'', ''1''] =
     Responded (http_Error ''Unknown partition or node kind'' StatusBadRequest) \<and>
   HandleGET Sprint_string (2 ^ 48) example_GM (example_request NotGiven NotGiven)
     [''main'', ''e'', ''Follows'', ''1b''] =
     Responded (http_Error ''Unknown partition or edge kind'' StatusBadRequest)"
proof -
  have n: "FetchNode example_GM ''main'' ''1'' ''Robot'' = Inr None"
    and e: "FetchEdge example_GM ''main'' ''1b'' ''Follows'' = Inr None"
    by (simp_all add: example_GM_def)
  from single_entity_miss [of example_GM "''main''" "''1''" "''Robot''" Sprint_string "2 ^ 48"
      "example_request NotGiven NotGiven"]
    single_entity_miss [of example_GM "''main''" "''1b''" "''Follows''" Sprint_string "2 ^ 48"
      "example_request NotGiven NotGiven"] n e
  show ?thesis by blast
qed

theorem single_entity_miss_counterexample:
  "FetchNode example_GM ''main'' ''1'' ''Robot'' = Inr None \<and>
   HandleGET Sprint_string (2 ^ 48) example_GM (example_request NotGiven NotGiven)
     [''main'', ''n'', ''Robot'', ''1''] =
     Responded (http_Error ''Unknown partition or node kind'' StatusBadRequest) \<and>
   \<not> server_error
       (status (http_Error ''Unknown partition or node kind'' StatusBadRequest :: string response))"
  by (simp add: HandleGET_def checkResources_def HandleGET_single_def example_GM_def
      server_error_def StatusBadRequest_def)

subsection \<open>The loops over the items of a batch\<close>

lemma node_loop_ok:
  "cs = map (\<lambda>d. mk part (NewGraphNodeFromMap d)) ns \<Longrightarrow>
   \<forall>k<length cs. S (tr @ take k cs) (cs ! k) = None \<Longrightarrow>
   node_loop (\<lambda>tr part node. invoke S tr (mk part node)) tr part ns = (None, tr @ cs)"
proof (induction ns arbitrary: tr cs)
  case Nil
  then show ?case by simp
next
  case (Cons d ns)
  let ?c = "mk part (NewGraphNodeFromMap d)"
  let ?cs = "map (\<lambda>d. mk part (NewGraphNodeFromMap d)) ns"
  have cs: "cs = ?c # ?cs" using Cons.prems(1) by simp
  have h: "S tr ?c = None" using Cons.prems(2) [rule_format, of 0] cs by simp
  have rest: "\<forall>k<length ?cs. S ((tr @ [?c]) @ take k ?cs) (?cs ! k) = None"
  proof (intro allI impI)
    fix k assume "k < length ?cs"
    then show "S ((tr @ [?c]) @ take k ?cs) (?cs ! k) = None"
      using Cons.prems(2) [rule_format, of "Suc k"] cs by simp
  qed
  show ?case using Cons.IH [OF refl rest] h cs by (simp add: invoke_def)
qed

lemma node_loop_fail:
  "cs = map (\<lambda>d. mk part (NewGraphNodeFromMap d)) ns \<Longrightarrow> k < length cs \<Longrightarrow>
   \<forall>j<k. S (tr @ take j cs) (cs ! j) = None \<Longrightarrow> S (tr @ take k cs) (cs ! k) = Some err \<Longrightarrow>
   node_loop (\<lambda>tr part node. invoke S tr (mk part node)) tr part ns =
     (Some (http_Error err StatusBadRequest), tr @ take (Suc k) cs)"
proof (induction ns arbitrary: tr cs k)
  case Nil
  then show ?case by simp
next
  case (Cons d ns)
  let ?c = "mk part (NewGraphNodeFromMap d)"
  let ?cs = "map (\<lambda>d. mk part (NewGraphNodeFromMap d)) ns"
  have cs: "cs = ?c # ?cs" using Cons.prems(1) by simp
  show ?case
  proof (cases k)
    case 0
    then show ?thesis using Cons.prems(4) cs by (simp add: invoke_def)
  next
    case (Suc k')
    have h: "S tr ?c = None" using Cons.prems(3) [rule_format, of 0] cs Suc by simp
    have k': "k' < length ?cs" using Cons.prems(2) cs Suc by simp
    have rest: "\<forall>j<k'. S ((tr @ [?c]) @ take j ?cs) (?cs ! j) = None"
    proof (intro allI impI)
      fix j assume "j < k'"
      then show "S ((tr @ [?c]) @ take j ?cs) (?cs ! j) = None"
        using Cons.prems(3) [rule_format, of "Suc j"] cs Suc by simp
    qed
    have bad: "S ((tr @ [?c]) @ take k' ?cs) (?cs ! k') = Some err"
      using Cons.prems(4) cs Suc by simp
    show ?thesis using Cons.IH [OF refl k' rest bad] h cs Suc by (simp add: invoke_def)
  qed
qed

lemma edge_loop_ok:
  "cs = map (\<lambda>d. mk part (NewGraphEdgeFromNode (NewGraphNodeFromMap d))) es \<Longrightarrow>
   \<forall>k<length cs. S (tr @ take k cs) (cs ! k) = None \<Longrightarrow>
   edge_loop (\<lambda>tr part edge. invoke S tr (mk part edge)) tr part es = (None, tr @ cs)"
proof (induction es arbitrary: tr cs)
  case Nil
  then show ?case by simp
next
  case (Cons d es)
  let ?c = "mk part (NewGraphEdgeFromNode (NewGraphNodeFromMap d))"
  let ?cs = "map (\<lambda>d. mk part (NewGraphEdgeFromNode (NewGraphNodeFromMap d))) es"
  have cs: "cs = ?c # ?cs" using Cons.prems(1) by simp
  have h: "S tr ?c = None" using Cons.prems(2) [rule_format, of 0] cs by simp
  have rest: "\<forall>k<length ?cs. S ((tr @ [?c]) @ take k ?cs) (?cs ! k) = None"
  proof (intro allI impI)
    fix k assume "k < length ?cs"
    then show "S ((tr @ [?c]) @ take k ?cs) (?cs ! k) = None"
      using Cons.prems(2) [rule_format, of "Suc k"] cs by simp
  qed
  show ?case using Cons.IH [OF refl rest] h cs by (simp add: invoke_def)
qed

lemma edge_loop_fail:
  "cs = map (\<lambda>d. mk part (NewGraphEdgeFromNode (NewGraphNodeFromMap d))) es \<Longrightarrow> k < length cs \<Longrightarrow>
   \<forall>j<k. S (tr @ take j cs) (cs ! j) = None \<Longrightarrow> S (tr @ take k cs) (cs ! k) = Some err \<Longrightarrow>
   edge_loop (\<lambda>tr part edge. invoke S tr (mk part edge)) tr part es =
     (Some (http_Error err StatusBadRequest), tr @ take (Suc k) cs)"
proof (induction es arbitrary: tr cs k)
  case Nil
  then show ?case by simp
next
  case (Cons d es)
  let ?c = "mk part (NewGraphEdgeFromNode (NewGraphNodeFromMap d))"
  let ?cs = "map (\<lambda>d. mk part (NewGraphEdgeFromNode (NewGraphNodeFromMap d))) es"
  have cs: "cs = ?c # ?cs" using Cons.prems(1) by simp
  show ?case
  proof (cases k)
    case 0
    then show ?thesis using Cons.prems(4) cs by (simp add: invoke_def)
  next
    case (Suc k')
    have h: "S tr ?c = None" using Cons.prems(3) [rule_format, of 0] cs Suc by simp
    have k': "k' < length ?cs" using Cons.prems(2) cs Suc by simp
    have rest: "\<forall>j<k'. S ((tr @ [?c]) @ take j ?cs) (?cs ! j) = None"
    proof (intro allI impI)
      fix j assume "j < k'"
      then show "S ((tr @ [?c]) @ take j ?cs) (?cs ! j) = None"
        using Cons.prems(3) [rule_format, of "Suc j"] cs Suc by simp
    qed
    have bad: "S ((tr @ [?c]) @ take k' ?cs) (?cs ! k') = Some err"
      using Cons.prems(4) cs Suc by simp
    show ?thesis using Cons.IH [OF refl k' rest bad] h cs Suc by (simp add: invoke_def)
  qed
qed

lemma handleGraphRequest_unfold:
  assumes len: "length resources = 1 \<or> length resources = 2"
    and dec: "decode_body J r resources = Inr (nl, el)"
  shows "handleGraphRequest J S r resources fN fE =
     (case node_loop fN [] (resources ! 0) (items_of nl) of
        (Some e, tr) \<Rightarrow> (e, tr)
      | (None, tr) \<Rightarrow>
          (case edge_loop fE tr (resources ! 0) (items_of el) of
             (Some e, tr) \<Rightarrow> (e, tr)
           | (None, tr) \<Rightarrow>
               (case S tr Commit of
                  Some err \<Rightarrow> (http_Error err StatusInternalServerError, tr @ [Commit])
                | None \<Rightarrow> (\<lparr>status = StatusOK, headers = [], body = NoBody\<rparr>, tr @ [Commit]))))"
proof -
  have chk: "(checkResources resources 1 2 ''Need a partition; optional entity type (n or e)''
      :: 'a response option) = None"
    using len by (auto simp: checkResources_def)
  have n: "(case nl of None \<Rightarrow> (None, []) | Some l \<Rightarrow> node_loop fN [] (resources ! 0) l) =
      node_loop fN [] (resources ! 0) (items_of nl)"
    by (cases nl) (simp_all add: items_of_def)
  have e: "(case el of None \<Rightarrow> (None, tr) | Some l \<Rightarrow> edge_loop fE tr (resources ! 0) l) =
      edge_loop fE tr (resources ! 0) (items_of el)" for tr
    by (cases el) (simp_all add: items_of_def)
  show ?thesis
    unfolding handleGraphRequest_def chk dec
    by (simp add: NewGraphTrans_def n e Trans_Commit_def invoke_def
        split: prod.splits option.splits)
qed

lemma batch_ok:
  assumes len: "length resources = 1 \<or> length resources = 2"
    and dec: "decode_body J r resources = Inr (nl, el)"
    and items: "items =
      map (\<lambda>d. mkN (resources ! 0) (NewGraphNodeFromMap d)) (items_of nl) @
      map (\<lambda>d. mkE (resources ! 0) (NewGraphEdgeFromNode (NewGraphNodeFromMap d))) (items_of el)"
    and ok: "\<forall>k<length items. S (take k items) (items ! k) = None"
  shows "handleGraphRequest J S r resources
           (\<lambda>tr part node. invoke S tr (mkN part node))
           (\<lambda>tr part edge. invoke S tr (mkE part edge)) =
         ((case S items Commit of
             None \<Rightarrow> \<lparr>status = StatusOK, headers = [], body = NoBody\<rparr>
           | Some err \<Rightarrow> http_Error err StatusInternalServerError),
          items @ [Commit])"
proof -
  let ?ncs = "map (\<lambda>d. mkN (resources ! 0) (NewGraphNodeFromMap d)) (items_of nl)"
  let ?ecs = "map (\<lambda>d. mkE (resources ! 0) (NewGraphEdgeFromNode (NewGraphNodeFromMap d))) (items_of el)"
  have n: "\<forall>k<length ?ncs. S ([] @ take k ?ncs) (?ncs ! k) = None"
  proof (intro allI impI)
    fix k assume k: "k < length ?ncs"
    then have "k < length items" by (simp add: items)
    from ok [rule_format, OF this] k show "S ([] @ take k ?ncs) (?ncs ! k) = None"
      by (simp add: items nth_append)
  qed
  have e: "\<forall>k<length ?ecs. S (([] @ ?ncs) @ take k ?ecs) (?ecs ! k) = None"
  proof (intro allI impI)
    fix k assume k: "k < length ?ecs"
    then have "length ?ncs + k < length items" by (simp add: items)
    from ok [rule_format, OF this] show "S (([] @ ?ncs) @ take k ?ecs) (?ecs ! k) = None"
      by (simp add: items nth_append)
  qed
  have nres: "node_loop (\<lambda>tr part node. invoke S tr (mkN part node)) [] (resources ! 0)
      (items_of nl) = (None, ?ncs)"
    using node_loop_ok [where mk = mkN and ns = "items_of nl" and tr = "[]" and S = S, OF refl n]
    by simp
  have eres: "edge_loop (\<lambda>tr part edge. invoke S tr (mkE part edge)) ?ncs (resources ! 0)
      (items_of el) = (None, items)"
    using edge_loop_ok [where mk = mkE and es = "items_of el" and tr = "[] @ ?ncs" and S = S,
        OF refl e]
    by (simp add: items)
  show ?thesis
    unfolding handleGraphRequest_unfold [OF len dec] nres prod.case option.case eres
    by (simp split: option.splits)
qed

lemma batch_fail:
  assumes len: "length resources = 1 \<or> length resources = 2"
    and dec: "decode_body J r resources = Inr (nl, el)"
    and items: "items =
      map (\<lambda>d. mkN (resources ! 0) (NewGraphNodeFromMap d)) (items_of nl) @
      map (\<lambda>d. mkE (resources ! 0) (NewGraphEdgeFromNode (NewGraphNodeFromMap d))) (items_of el)"
    and k: "k < length items"
    and before: "\<forall>j<k. S (take j items) (items ! j) = None"
    and bad: "S (take k items) (items ! k) = Some err"
  shows "handleGraphRequest J S r resources
           (\<lambda>tr part node. invoke S tr (mkN part node))
           (\<lambda>tr part edge. invoke S tr (mkE part edge)) =
         (http_Error err StatusBadRequest, take (Suc k) items)"
proof -
  let ?ncs = "map (\<lambda>d. mkN (resources ! 0) (NewGraphNodeFromMap d)) (items_of nl)"
  let ?ecs = "map (\<lambda>d. mkE (resources ! 0) (NewGraphEdgeFromNode (NewGraphNodeFromMap d))) (items_of el)"
  have it: "items = ?ncs @ ?ecs" by (rule items)
  show ?thesis
  proof (cases "k < length ?ncs")
    case True
    have b: "\<forall>j<k. S ([] @ take j ?ncs) (?ncs ! j) = None"
    proof (intro allI impI)
      fix j assume j: "j < k"
      from before [rule_format, OF j] j True show "S ([] @ take j ?ncs) (?ncs ! j) = None"
        by (simp add: it nth_append)
    qed
    have c: "S ([] @ take k ?ncs) (?ncs ! k) = Some err"
      using bad True by (simp add: it nth_append)
    have t: "take (Suc k) items = take (Suc k) ?ncs" using True by (simp add: it)
    have nres: "node_loop (\<lambda>tr part node. invoke S tr (mkN part node)) [] (resources ! 0)
        (items_of nl) = (Some (http_Error err StatusBadRequest), take (Suc k) items)"
      using node_loop_fail [where mk = mkN and ns = "items_of nl" and tr = "[]" and S = S,
          OF refl True b c]
      by (simp add: t)
    show ?thesis
      unfolding handleGraphRequest_unfold [OF len dec] nres prod.case option.case by simp
  next
    case False
    define k' where "k' = k - length ?ncs"
    have kk: "k = length ?ncs + k'" using False by (simp add: k'_def)
    have k': "k' < length ?ecs" using k kk by (simp add: it)
    have n: "\<forall>j<length ?ncs. S ([] @ take j ?ncs) (?ncs ! j) = None"
    proof (intro allI impI)
      fix j assume j: "j < length ?ncs"
      then have "j < k" using False by simp
      from before [rule_format, OF this] j show "S ([] @ take j ?ncs) (?ncs ! j) = None"
        by (simp add: it nth_append)
    qed
    have b: "\<forall>j<k'. S (([] @ ?ncs) @ take j ?ecs) (?ecs ! j) = None"
    proof (intro allI impI)
      fix j assume j: "j < k'"
      then have "length ?ncs + j < k" by (simp add: kk)
      from before [rule_format, OF this] show "S (([] @ ?ncs) @ take j ?ecs) (?ecs ! j) = None"
        by (simp add: it nth_append)
    qed
    have c: "S (([] @ ?ncs) @ take k' ?ecs) (?ecs ! k') = Some err"
      using bad by (simp add: it kk nth_append)
    have t: "take (Suc k) items = ([] @ ?ncs) @ take (Suc k') ?ecs"
      by (simp add: it kk)
    have nres: "node_loop (\<lambda>tr part node. invoke S tr (mkN part node)) [] (resources ! 0)
        (items_of nl) = (None, ?ncs)"
      using node_loop_ok [where mk = mkN and ns = "items_of nl" and tr = "[]" and S = S,
          OF refl n]
      by simp
    have eres: "edge_loop (\<lambda>tr part edge. invoke S tr (mkE part edge)) ?ncs (resources ! 0)
        (items_of el) = (Some (http_Error err StatusBadRequest), take (Suc k) items)"
      using edge_loop_fail [where mk = mkE and es = "items_of el" and tr = "[] @ ?ncs" and S = S,
          OF refl k' b c]
      by (simp add: t)
    show ?thesis
      unfolding handleGraphRequest_unfold [OF len dec] nres prod.case option.case eres by simp
  qed
qed

lemma first_failure:
  "\<not> (\<forall>k<n::nat. P k) \<Longrightarrow> \<exists>k<n. \<not> P k \<and> (\<forall>j<k. P j)"
proof -
  assume "\<not> (\<forall>k<n. P k)"
  then have "\<exists>k. k < n \<and> \<not> P k" by blast
  then obtain k where "k < n \<and> \<not> P k" and least: "\<forall>m<k. \<not> (m < n \<and> \<not> P m)"
    unfolding exists_least_iff [of "\<lambda>k. k < n \<and> \<not> P k"] by blast
  then show ?thesis by (intro exI [of _ k]) auto
qed

lemma Handle_strategies:
  "Handle verb D J S r resources =
     handleGraphRequest J S r resources
       (\<lambda>tr part node. invoke S tr (spec_node_call D verb part node))
       (\<lambda>tr part edge. invoke S tr (spec_edge_call D verb part edge))"
  by (cases verb)
    (simp_all add: Handle_def HandlePUT_def HandlePOST_def HandleDELETE_def spec_node_call_def
      spec_edge_call_def Trans_UpdateNode_def Trans_StoreNode_def Trans_RemoveNode_def
      Trans_StoreEdge_def Trans_RemoveEdge_def)

lemma spec_calls_no_Commit: "Commit \<notin> set (spec_calls D verb part nl el)"
  by (cases verb) (auto simp: spec_calls_def spec_node_call_def spec_edge_call_def)

lemma batch_prefix:
  assumes len: "length resources = 1 \<or> length resources = 2"
    and dec: "decode_body J r resources = Inr (nl, el)"
  shows "\<exists>m. snd (Handle verb D J S r resources) =
           take m (spec_calls D verb (resources ! 0) nl el @ [Commit])"
proof -
  let ?items = "spec_calls D verb (resources ! 0) nl el"
  have items: "?items =
      map (\<lambda>d. spec_node_call D verb (resources ! 0) (NewGraphNodeFromMap d)) (items_of nl) @
      map (\<lambda>d. spec_edge_call D verb (resources ! 0) (NewGraphEdgeFromNode (NewGraphNodeFromMap d)))
        (items_of el)"
    by (simp add: spec_calls_def)
  show ?thesis
  proof (cases "\<forall>k<length ?items. S (take k ?items) (?items ! k) = None")
    case True
    from batch_ok [where mkN = "spec_node_call D verb" and mkE = "spec_edge_call D verb", OF len dec items True]
    have "snd (Handle verb D J S r resources) = take (Suc (length ?items)) (?items @ [Commit])"
      by (simp add: Handle_strategies)
    then show ?thesis by blast
  next
    case False
    from first_failure [OF False] obtain k where k: "k < length ?items"
      and bad: "S (take k ?items) (?items ! k) \<noteq> None"
      and before: "\<forall>j<k. S (take j ?items) (?items ! j) = None"
      by blast
    from bad obtain err where err: "S (take k ?items) (?items ! k) = Some err" by auto
    from batch_fail [where mkN = "spec_node_call D verb" and mkE = "spec_edge_call D verb", OF len dec items k before err]
    have "snd (Handle verb D J S r resources) = take (Suc k) (?items @ [Commit])"
      using k by (simp add: Handle_strategies)
    then show ?thesis by blast
  qed
qed

lemma example_decode:
  "decode_body example_decoder example_batch [''main''] =
     Inr (Some [Data (person ''1''), Data (person ''2'')], Some [EdgeData (follows ''12'')])"
  by (simp add: decode_body_def example_decoder_def example_batch_def)

subsection \<open>Batches\<close>

text \<open>
  C1. Take a PUT, POST or DELETE request whose path has one or two segments and whose body
  decodes. The handler calls the strategy of the verb once for each decoded item, in the
  order of the input, all nodes before all edges. If every call succeeds, the handler then
  calls \<open>Commit\<close>, last, and answers with success, or with the server error 500 when
  \<open>Commit\<close> fails. If the call for item \<open>k\<close> is the first to fail, the handler stops there:
  the calls made are those for the items up to \<open>k\<close>, \<open>Commit\<close> is not among them, and
  the response is the client error 400 with the error of that item.
\<close>

theorem batch_fail_fast:
  assumes len: "length resources = 1 \<or> length resources = 2"
    and dec: "decode_body J r resources = Inr (nDataList, eDataList)"
    and items: "items = spec_calls D verb (resources ! 0) nDataList eDataList"
  shows "((\<forall>k<length items. S (take k items) (items ! k) = None) \<longrightarrow>
            Handle verb D J S r resources =
              ((case S items Commit of
                  None \<Rightarrow> \<lparr>status = StatusOK, headers = [], body = NoBody\<rparr>
                | Some err \<Rightarrow> http_Error err StatusInternalServerError),
               items @ [Commit])) \<and>
         (\<forall>k err. k < length items \<and> (\<forall>j<k. S (take j items) (items ! j) = None) \<and>
              S (take k items) (items ! k) = Some err \<longrightarrow>
            Handle verb D J S r resources = (http_Error err StatusBadRequest, take (Suc k) items) \<and>
            Commit \<notin> set (snd (Handle verb D J S r resources))) \<and>
         client_error StatusBadRequest \<and> server_error StatusInternalServerError"
proof -
  have it: "items =
      map (\<lambda>d. spec_node_call D verb (resources ! 0) (NewGraphNodeFromMap d)) (items_of nDataList) @
      map (\<lambda>d. spec_edge_call D verb (resources ! 0) (NewGraphEdgeFromNode (NewGraphNodeFromMap d)))
        (items_of eDataList)"
    by (simp add: items spec_calls_def)
  have a: "Handle verb D J S r resources =
              ((case S items Commit of
                  None \<Rightarrow> \<lparr>status = StatusOK, headers = [], body = NoBody\<rparr>
                | Some err \<Rightarrow> http_Error err StatusInternalServerError),
               items @ [Commit])"
    if "\<forall>k<length items. S (take k items) (items ! k) = None"
    using batch_ok [where mkN = "spec_node_call D verb" and mkE = "spec_edge_call D verb", OF len dec it that] by (simp add: Handle_strategies)
  have b: "Handle verb D J S r resources = (http_Error err StatusBadRequest, take (Suc k) items) \<and>
            Commit \<notin> set (snd (Handle verb D J S r resources))"
    if "k < length items \<and> (\<forall>j<k. S (take j items) (items ! j) = None) \<and>
        S (take k items) (items ! k) = Some err" for k err
  proof -
    from that have k: "k < length items" and before: "\<forall>j<k. S (take j items) (items ! j) = None"
      and bad: "S (take k items) (items ! k) = Some err" by simp_all
    have eq: "Handle verb D J S r resources = (http_Error err StatusBadRequest, take (Suc k) items)"
      using batch_fail [where mkN = "spec_node_call D verb" and mkE = "spec_edge_call D verb", OF len dec it k before bad] by (simp add: Handle_strategies)
    have "Commit \<notin> set (take (Suc k) items)"
      using spec_calls_no_Commit [of D verb "resources ! 0" nDataList eDataList]
      by (auto simp: items dest: in_set_takeD)
    with eq show ?thesis by simp
  qed
  have c: "client_error StatusBadRequest \<and> server_error StatusInternalServerError"
    by (simp add: client_error_def server_error_def StatusBadRequest_def
        StatusInternalServerError_def)
  from a b c show ?thesis by blast
qed

theorem batch_fail_fast_witness:
  "Handle POST example_entity_api example_decoder reject_second example_batch [''main''] =
     (http_Error ''rejected'' StatusBadRequest,
      [StoreNode ''main'' (NewGraphNodeFromMap (Data (person ''1''))),
       StoreNode ''main'' (NewGraphNodeFromMap (Data (person ''2'')))]) \<and>
   Handle POST example_entity_api example_decoder accept_all example_batch [''main''] =
     (\<lparr>status = StatusOK, headers = [], body = NoBody\<rparr>,
      [StoreNode ''main'' (NewGraphNodeFromMap (Data (person ''1''))),
       StoreNode ''main'' (NewGraphNodeFromMap (Data (person ''2''))),
       StoreEdge ''main'' (NewGraphEdgeFromNode (NewGraphNodeFromMap (EdgeData (follows ''12'')))),
       Commit])"
proof -
  let ?items = "[StoreNode ''main'' (NewGraphNodeFromMap (Data (person ''1''))),
       StoreNode ''main'' (NewGraphNodeFromMap (Data (person ''2''))),
       StoreEdge ''main'' (NewGraphEdgeFromNode (NewGraphNodeFromMap (EdgeData (follows ''12''))))]"
  have len: "length [''main''] = 1 \<or> length [''main''] = 2" by simp
  have items: "?items = spec_calls example_entity_api POST ([''main''] ! 0)
      (Some [Data (person ''1''), Data (person ''2'')]) (Some [EdgeData (follows ''12'')])"
    by (simp add: spec_calls_def spec_node_call_def spec_edge_call_def items_of_def)
  have ok: "\<forall>k<length ?items. accept_all (take k ?items) (?items ! k) = None"
    by (simp add: accept_all_def)
  have k: "1 < length ?items \<and> (\<forall>j<1. reject_second (take j ?items) (?items ! j) = None) \<and>
      reject_second (take 1 ?items) (?items ! 1) = Some ''rejected''"
    by (simp add: reject_second_def)
  from batch_fail_fast [OF len example_decode items, of accept_all] ok
  have 1: "Handle POST example_entity_api example_decoder accept_all example_batch [''main''] =
     (\<lparr>status = StatusOK, headers = [], body = NoBody\<rparr>, ?items @ [Commit])"
    by (simp add: accept_all_def)
  from batch_fail_fast [OF len example_decode items, of reject_second] k
  have 2: "Handle POST example_entity_api example_decoder reject_second example_batch [''main''] =
     (http_Error ''rejected'' StatusBadRequest, take (Suc 1) ?items)"
    by blast
  from 1 2 show ?thesis by simp
qed

text \<open>
  C6. PUT, POST and DELETE all run \<open>handleGraphRequest\<close>, each with its own two
  strategies. On a transaction that accepts every call, a PUT makes the call \<open>UpdateNode\<close>
  for each node and \<open>StoreEdge\<close> for each edge; a POST makes \<open>StoreNode\<close> for each node
  and \<open>StoreEdge\<close> for each edge; a DELETE makes \<open>RemoveNode\<close> and \<open>RemoveEdge\<close> with
  the partition, the key and the kind of the item and nothing else; then \<open>Commit\<close>. On any
  transaction, the calls made are an initial part of that list.
\<close>

theorem verb_strategies:
  assumes len: "length resources = 1 \<or> length resources = 2"
    and dec: "decode_body J r resources = Inr (nDataList, eDataList)"
    and part: "part = resources ! 0"
    and ns: "ns = map NewGraphNodeFromMap (items_of nDataList)"
    and es: "es = map (\<lambda>d. NewGraphEdgeFromNode (NewGraphNodeFromMap d)) (items_of eDataList)"
    and puts: "puts = map (UpdateNode part) ns @ map (StoreEdge part) es @ [Commit]"
    and posts: "posts = map (StoreNode part) ns @ map (StoreEdge part) es @ [Commit]"
    and deletes: "deletes =
      map (\<lambda>n. RemoveNode part (Key D n) (Kind D n)) ns @
      map (\<lambda>e. RemoveEdge part (Key D (EdgeNode e)) (Kind D (EdgeNode e))) es @ [Commit]"
  shows "HandlePUT J S r resources =
           handleGraphRequest J S r resources
             (\<lambda>tr part node. invoke S tr (UpdateNode part node))
             (\<lambda>tr part edge. invoke S tr (StoreEdge part edge)) \<and>
         HandlePOST J S r resources =
           handleGraphRequest J S r resources
             (\<lambda>tr part node. invoke S tr (StoreNode part node))
             (\<lambda>tr part edge. invoke S tr (StoreEdge part edge)) \<and>
         HandleDELETE D J S r resources =
           handleGraphRequest J S r resources
             (\<lambda>tr part node. invoke S tr (RemoveNode part (Key D node) (Kind D node)))
             (\<lambda>tr part edge.
                invoke S tr (RemoveEdge part (Key D (EdgeNode edge)) (Kind D (EdgeNode edge)))) \<and>
         (\<exists>m. snd (HandlePUT J S r resources) = take m puts) \<and>
         (\<exists>m. snd (HandlePOST J S r resources) = take m posts) \<and>
         (\<exists>m. snd (HandleDELETE D J S r resources) = take m deletes) \<and>
         ((\<forall>tr c. S tr c = None) \<longrightarrow>
            snd (HandlePUT J S r resources) = puts \<and>
            snd (HandlePOST J S r resources) = posts \<and>
            snd (HandleDELETE D J S r resources) = deletes)"
proof -
  have put: "spec_calls D PUT (resources ! 0) nDataList eDataList @ [Commit] = puts"
    and post: "spec_calls D POST (resources ! 0) nDataList eDataList @ [Commit] = posts"
    and delete: "spec_calls D DELETE (resources ! 0) nDataList eDataList @ [Commit] = deletes"
    by (simp_all add: spec_calls_def spec_node_call_def spec_edge_call_def puts posts deletes
        ns es part comp_def)
  have h: "Handle PUT D J S r resources = HandlePUT J S r resources"
    "Handle POST D J S r resources = HandlePOST J S r resources"
    "Handle DELETE D J S r resources = HandleDELETE D J S r resources"
    by (simp_all add: Handle_def)
  have 1: "HandlePUT J S r resources =
           handleGraphRequest J S r resources
             (\<lambda>tr part node. invoke S tr (UpdateNode part node))
             (\<lambda>tr part edge. invoke S tr (StoreEdge part edge))"
    by (simp add: HandlePUT_def Trans_UpdateNode_def Trans_StoreEdge_def)
  have 2: "HandlePOST J S r resources =
           handleGraphRequest J S r resources
             (\<lambda>tr part node. invoke S tr (StoreNode part node))
             (\<lambda>tr part edge. invoke S tr (StoreEdge part edge))"
    by (simp add: HandlePOST_def Trans_StoreNode_def Trans_StoreEdge_def)
  have 3: "HandleDELETE D J S r resources =
           handleGraphRequest J S r resources
             (\<lambda>tr part node. invoke S tr (RemoveNode part (Key D node) (Kind D node)))
             (\<lambda>tr part edge.
                invoke S tr (RemoveEdge part (Key D (EdgeNode edge)) (Kind D (EdgeNode edge))))"
    by (simp add: HandleDELETE_def Trans_RemoveNode_def Trans_RemoveEdge_def)
  have 4: "\<exists>m. snd (HandlePUT J S r resources) = take m puts"
    using batch_prefix [OF len dec, of PUT D S] by (simp add: h put)
  have 5: "\<exists>m. snd (HandlePOST J S r resources) = take m posts"
    using batch_prefix [OF len dec, of POST D S] by (simp add: h post)
  have 6: "\<exists>m. snd (HandleDELETE D J S r resources) = take m deletes"
    using batch_prefix [OF len dec, of DELETE D S] by (simp add: h delete)
  have 7: "snd (HandlePUT J S r resources) = puts \<and>
            snd (HandlePOST J S r resources) = posts \<and>
            snd (HandleDELETE D J S r resources) = deletes"
    if acc: "\<forall>tr c. S tr c = None"
  proof -
    have "snd (Handle verb D J S r resources) =
        spec_calls D verb (resources ! 0) nDataList eDataList @ [Commit]" for verb
    proof -
      have it: "spec_calls D verb (resources ! 0) nDataList eDataList =
        map (\<lambda>d. spec_node_call D verb (resources ! 0) (NewGraphNodeFromMap d)) (items_of nDataList) @
        map (\<lambda>d. spec_edge_call D verb (resources ! 0) (NewGraphEdgeFromNode (NewGraphNodeFromMap d)))
          (items_of eDataList)"
        by (simp add: spec_calls_def)
      from batch_ok [where mkN = "spec_node_call D verb" and mkE = "spec_edge_call D verb", OF len dec it] acc show ?thesis by (simp add: Handle_strategies)
    qed
    from this [of PUT] this [of POST] this [of DELETE] show ?thesis
      by (simp add: h put post delete)
  qed
  from 1 2 3 4 5 6 7 show ?thesis by blast
qed

theorem verb_strategies_witness:
  "snd (HandlePUT example_decoder accept_all example_batch [''main'']) =
     [UpdateNode ''main'' (NewGraphNodeFromMap (Data (person ''1''))),
      UpdateNode ''main'' (NewGraphNodeFromMap (Data (person ''2''))),
      StoreEdge ''main'' (NewGraphEdgeFromNode (NewGraphNodeFromMap (EdgeData (follows ''12'')))),
      Commit] \<and>
   snd (HandleDELETE example_entity_api example_decoder accept_all example_batch [''main'']) =
     [RemoveNode ''main'' ''1'' ''Person'', RemoveNode ''main'' ''2'' ''Person'',
      RemoveEdge ''main'' ''12'' ''Follows'', Commit]"
proof -
  have len: "length [''main''] = 1 \<or> length [''main''] = 2" by simp
  have acc: "\<forall>tr c. accept_all tr c = None" by (simp add: accept_all_def)
  let ?ns = "map NewGraphNodeFromMap (items_of (Some [Data (person ''1''), Data (person ''2'')]))"
  let ?es = "map (\<lambda>d. NewGraphEdgeFromNode (NewGraphNodeFromMap d))
      (items_of (Some [EdgeData (follows ''12'')]))"
  from verb_strategies [OF len example_decode refl refl refl refl refl refl,
      of accept_all example_entity_api] acc
  have "snd (HandlePUT example_decoder accept_all example_batch [''main'']) =
      map (UpdateNode ([''main''] ! 0)) ?ns @ map (StoreEdge ([''main''] ! 0)) ?es @ [Commit] \<and>
    snd (HandleDELETE example_entity_api example_decoder accept_all example_batch [''main'']) =
      map (\<lambda>n. RemoveNode ([''main''] ! 0) (Key example_entity_api n) (Kind example_entity_api n))
        ?ns @
      map (\<lambda>e. RemoveEdge ([''main''] ! 0) (Key example_entity_api (EdgeNode e))
        (Kind example_entity_api (EdgeNode e))) ?es @ [Commit]"
    by blast
  then show ?thesis
    by (simp add: items_of_def example_entity_api_def NewGraphNodeFromMap_def
        NewGraphEdgeFromNode_def person_def follows_def EdgeData_def)
qed

subsection \<open>The order of strings\<close>

lemma string_less_iff: "string_less a b \<longleftrightarrow> a < b"
  by (induction a b rule: string_less.induct) (auto simp: less_char_def)

lemma string_less_lexord:
  "string_less a b \<longleftrightarrow> (a, b) \<in> lexord {(c, d). (of_char c :: nat) < of_char d}"
  by (induction a b rule: string_less.induct) auto

subsection \<open>Swap\<close>

lemma Swap_pair:
  "Swap [ns, es] i j = [ns[i := ns ! j, j := ns ! i], es[i := es ! j, j := es ! i]]"
  by (simp add: Swap_def Let_def)

lemma co_permuted_refl: "length es = length ns \<Longrightarrow> co_permuted ns es ns es"
  unfolding co_permuted_def
  by (auto intro!: exI [of _ id])

lemma co_permuted_trans:
  assumes "co_permuted ns es ns1 es1" and "co_permuted ns1 es1 ns2 es2"
  shows "co_permuted ns es ns2 es2"
proof -
  let ?n = "length ns"
  from assms(1) obtain p where len1: "length es = ?n" "length ns1 = ?n" "length es1 = ?n"
    and p: "bij_betw p {..<?n} {..<?n}"
    and p': "\<forall>i<?n. ns1 ! i = ns ! p i \<and> es1 ! i = es ! p i"
    unfolding co_permuted_def by blast
  from assms(2) len1 obtain q where len2: "length ns2 = ?n" "length es2 = ?n"
    and q: "bij_betw q {..<?n} {..<?n}"
    and q': "\<forall>i<?n. ns2 ! i = ns1 ! q i \<and> es2 ! i = es1 ! q i"
    unfolding co_permuted_def by auto
  have pq: "bij_betw (p \<circ> q) {..<?n} {..<?n}" using q p by (rule bij_betw_trans)
  have "\<forall>i<?n. ns2 ! i = ns ! (p \<circ> q) i \<and> es2 ! i = es ! (p \<circ> q) i"
  proof (intro allI impI)
    fix i assume i: "i < ?n"
    then have "q i < ?n" using q by (auto simp: bij_betw_def)
    then show "ns2 ! i = ns ! (p \<circ> q) i \<and> es2 ! i = es ! (p \<circ> q) i"
      using p' q' i by simp
  qed
  with pq len1 len2 show ?thesis unfolding co_permuted_def by blast
qed

lemma co_permuted_swap:
  assumes "length es = length ns" and "i < length ns" and "j < length ns"
  shows "co_permuted ns es (ns[i := ns ! j, j := ns ! i]) (es[i := es ! j, j := es ! i])"
proof -
  let ?n = "length ns"
  let ?t = "\<lambda>x. if x = i then j else if x = j then i else x"
  have inv: "?t (?t x) = x" for x by simp
  have "bij_betw ?t {..<?n} {..<?n}"
    by (rule bij_betw_byWitness [where f' = ?t]) (use assms in \<open>auto split: if_splits\<close>)
  moreover have "\<forall>x<?n. ns[i := ns ! j, j := ns ! i] ! x = ns ! ?t x \<and>
      es[i := es ! j, j := es ! i] ! x = es ! ?t x"
    using assms by (auto simp: nth_list_update)
  ultimately show ?thesis using assms unfolding co_permuted_def by (intro conjI exI [of _ ?t]) auto
qed

lemma swaps_co_permuted:
  "length es = length ns \<Longrightarrow> \<forall>(i, j) \<in> set sw. i < length ns \<and> j < length ns \<Longrightarrow>
   \<exists>ns' es'. swaps [ns, es] sw = [ns', es'] \<and> co_permuted ns es ns' es'"
proof (induction sw arbitrary: ns es)
  case Nil
  then show ?case by (simp add: co_permuted_refl)
next
  case (Cons s sw)
  obtain i j where s: "s = (i, j)" by (cases s)
  let ?ns = "ns[i := ns ! j, j := ns ! i]" and ?es = "es[i := es ! j, j := es ! i]"
  from Cons.prems s have ij: "i < length ns" "j < length ns" by auto
  have step: "co_permuted ns es ?ns ?es" using Cons.prems(1) ij by (rule co_permuted_swap)
  have "\<forall>(i, j) \<in> set sw. i < length ?ns \<and> j < length ?ns" using Cons.prems(2) by auto
  from Cons.IH [of ?es ?ns, OF _ this] Cons.prems(1)
  obtain ns' es' where "swaps [?ns, ?es] sw = [ns', es']" "co_permuted ?ns ?es ns' es'" by auto
  with step show ?case using s by (auto simp: Swap_pair intro: co_permuted_trans)
qed

subsection \<open>The insertion sort\<close>

lemma adjacent_swap:
  "Suc i < length xs \<Longrightarrow>
     xs[Suc i := xs ! i, i := xs ! Suc i] =
       take i xs @ [xs ! Suc i, xs ! i] @ drop (Suc (Suc i)) xs"
proof (induction xs arbitrary: i)
  case Nil
  then show ?case by simp
next
  case (Cons x xs)
  show ?case
  proof (cases i)
    case 0
    with Cons.prems show ?thesis by (cases xs) simp_all
  next
    case (Suc i')
    with Cons.prems Cons.IH [of i'] show ?thesis by simp
  qed
qed

lemma adjacent_split:
  "Suc i < length xs \<Longrightarrow> xs = take i xs @ [xs ! i, xs ! Suc i] @ drop (Suc (Suc i)) xs"
  by (metis Cons_nth_drop_Suc Suc_lessD append_Cons append_Nil append_take_drop_id)

lemma filter_adjacent_swap:
  assumes "Suc i < length xs" and "\<not> (P (xs ! i) \<and> P (xs ! Suc i))"
  shows "filter P (xs[Suc i := xs ! i, i := xs ! Suc i]) = filter P xs"
proof -
  have "filter P (xs[Suc i := xs ! i, i := xs ! Suc i]) =
      filter P (take i xs) @ filter P [xs ! Suc i, xs ! i] @ filter P (drop (Suc (Suc i)) xs)"
    by (simp only: adjacent_swap [OF assms(1)] filter_append)
  also have "filter P [xs ! Suc i, xs ! i] = filter P [xs ! i, xs ! Suc i]"
    using assms(2) by auto
  also have "filter P (take i xs) @ filter P [xs ! i, xs ! Suc i] @
      filter P (drop (Suc (Suc i)) xs) = filter P xs"
    by (subst (4) adjacent_split [OF assms(1)]) (simp only: filter_append)
  finally show ?thesis .
qed

lemma Less_pair:
  "Less fmt [ns, es] i j = string_less (key_text fmt (ns ! i)) (key_text fmt (ns ! j))"
  by (simp add: Less_def key_text_def Let_def)

lemma insertion_steps_stop:
  "\<not> (j > a \<and> Less fmt c j (j - 1)) \<Longrightarrow> insertion_steps fmt c a j = c"
  by (subst insertion_steps.simps) auto

lemma insertion_steps_step:
  "j > a \<Longrightarrow> Less fmt c j (j - 1) \<Longrightarrow>
     insertion_steps fmt c a j = insertion_steps fmt (Swap c j (j - 1)) a (j - 1)"
  by (subst insertion_steps.simps) auto

text \<open>One run of the inner loop keeps the pairing and the order of equal keys.\<close>

lemma insertion_steps_keeps:
  assumes "length es = length ns" and "j < length ns"
  shows "\<exists>ns' es'. insertion_steps fmt [ns, es] a j = [ns', es'] \<and>
     co_permuted ns es ns' es' \<and>
     (\<forall>k. filter (\<lambda>x. key_text fmt (fst x) = k) (zip ns' es') =
          filter (\<lambda>x. key_text fmt (fst x) = k) (zip ns es))"
  using assms
proof (induction j arbitrary: ns es)
  case 0
  then show ?case by (auto simp: insertion_steps_stop co_permuted_refl)
next
  case (Suc j)
  show ?case
  proof (cases "Suc j > a \<and> Less fmt [ns, es] (Suc j) (Suc j - 1)")
    case False
    then show ?thesis using Suc.prems by (auto simp: insertion_steps_stop co_permuted_refl)
  next
    case True
    let ?ns = "ns[Suc j := ns ! j, j := ns ! Suc j]" and ?es = "es[Suc j := es ! j, j := es ! Suc j]"
    have less: "string_less (key_text fmt (ns ! Suc j)) (key_text fmt (ns ! j))"
      using True by (simp add: Less_pair)
    then have ne: "key_text fmt (ns ! Suc j) \<noteq> key_text fmt (ns ! j)"
      by (auto simp: string_less_iff)
    have step: "insertion_steps fmt [ns, es] a (Suc j) = insertion_steps fmt [?ns, ?es] a j"
      using True by (simp add: insertion_steps_step Swap_pair)
    have cp: "co_permuted ns es ?ns ?es"
      using Suc.prems by (intro co_permuted_swap) simp_all
    have zl: "Suc j < length (zip ns es)" using Suc.prems by simp
    have z: "zip ?ns ?es = (zip ns es)[Suc j := zip ns es ! j, j := zip ns es ! Suc j]"
      using Suc.prems by (simp add: zip_update [symmetric])
    have st: "filter (\<lambda>x. key_text fmt (fst x) = k) (zip ?ns ?es) =
        filter (\<lambda>x. key_text fmt (fst x) = k) (zip ns es)" for k
      unfolding z using ne Suc.prems by (intro filter_adjacent_swap [OF zl]) auto
    from Suc.IH [of ?es ?ns] Suc.prems
    obtain ns' es' where r: "insertion_steps fmt [?ns, ?es] a j = [ns', es']"
      and cp': "co_permuted ?ns ?es ns' es'"
      and st': "\<forall>k. filter (\<lambda>x. key_text fmt (fst x) = k) (zip ns' es') =
          filter (\<lambda>x. key_text fmt (fst x) = k) (zip ?ns ?es)"
      by auto
    show ?thesis
      using step r co_permuted_trans [OF cp cp'] st st' by simp
  qed
qed

text \<open>
  One run of the inner loop, begun at \<open>j\<close> with the elements from \<open>a\<close> to \<open>i\<close> in order
  but for the one at \<open>j\<close>, leaves the elements from \<open>a\<close> to \<open>i\<close> in order and the others
  in place.
\<close>

lemma insertion_steps_sorts:
  assumes "length es = length ns" and "i < length ns" and "j \<le> i"
    and "\<forall>p q. a \<le> p \<and> p < q \<and> q \<le> i \<and> q \<noteq> j \<longrightarrow>
           key_text fmt (ns ! p) \<le> key_text fmt (ns ! q)"
  shows "\<exists>ns' es'. insertion_steps fmt [ns, es] a j = [ns', es'] \<and>
     (\<forall>p q. a \<le> p \<and> p < q \<and> q \<le> i \<longrightarrow> key_text fmt (ns' ! p) \<le> key_text fmt (ns' ! q)) \<and>
     (\<forall>p. i < p \<longrightarrow> ns' ! p = ns ! p)"
  using assms
proof (induction j arbitrary: ns es)
  case 0
  have "insertion_steps fmt [ns, es] a 0 = [ns, es]" by (simp add: insertion_steps_stop)
  moreover have "key_text fmt (ns ! p) \<le> key_text fmt (ns ! q)"
    if "a \<le> p \<and> p < q \<and> q \<le> i" for p q
    using "0.prems"(4) that by auto
  ultimately show ?case by auto
next
  case (Suc j)
  let ?K = "\<lambda>xs p. key_text fmt (xs ! p)"
  show ?case
  proof (cases "Suc j > a \<and> Less fmt [ns, es] (Suc j) (Suc j - 1)")
    case False
    have stop: "insertion_steps fmt [ns, es] a (Suc j) = [ns, es]"
      using False by (simp add: insertion_steps_stop)
    have "?K ns p \<le> ?K ns q" if pq: "a \<le> p \<and> p < q \<and> q \<le> i" for p q
    proof (cases "q = Suc j")
      case q: True
      show ?thesis
      proof (cases "Suc j > a")
        case False
        with pq q show ?thesis by simp
      next
        case True
        with False have le: "?K ns j \<le> ?K ns (Suc j)"
          by (simp add: Less_pair string_less_iff not_less)
        show ?thesis
        proof (cases "p = j")
          case True
          with le q show ?thesis by simp
        next
          case False
          with pq q have "a \<le> p \<and> p < j \<and> j \<le> i \<and> j \<noteq> Suc j" by simp
          with Suc.prems(4) have "?K ns p \<le> ?K ns j" by blast
          with le q show ?thesis by simp
        qed
      qed
    next
      case False
      with Suc.prems(4) pq show ?thesis by blast
    qed
    with stop show ?thesis by auto
  next
    case True
    let ?ns = "ns[Suc j := ns ! j, j := ns ! Suc j]" and ?es = "es[Suc j := es ! j, j := es ! Suc j]"
    have lt: "?K ns (Suc j) < ?K ns j" and aj: "a \<le> j"
      using True by (simp_all add: Less_pair string_less_iff)
    have ji: "Suc j \<le> i" "j < length ns" "Suc j < length ns" using Suc.prems by simp_all
    have step: "insertion_steps fmt [ns, es] a (Suc j) = insertion_steps fmt [?ns, ?es] a j"
      using True by (simp add: insertion_steps_step Swap_pair)
    have nth: "?ns ! p = (if p = j then ns ! Suc j else if p = Suc j then ns ! j else ns ! p)"
      for p
      using ji by (auto simp: nth_list_update)
    have inv: "?K ?ns p \<le> ?K ?ns q" if pq: "a \<le> p \<and> p < q \<and> q \<le> i \<and> q \<noteq> j" for p q
    proof -
      from pq have a: "a \<le> p" and b: "p < q" and c: "q \<le> i" and d: "q \<noteq> j" by simp_all
      consider (1) "q = Suc j" "p = j" | (2) "q = Suc j" "p < j" | (3) "Suc j < q" "p = Suc j"
        | (4) "Suc j < q" "p = j" | (5) "Suc j < q" "p \<noteq> j" "p \<noteq> Suc j" | (6) "q < j"
        using b d by linarith
      then show ?thesis
      proof cases
        case 1
        then show ?thesis using lt by (simp add: nth)
      next
        case 2
        with a ji Suc.prems(4) have "?K ns p \<le> ?K ns j" by (intro Suc.prems(4) [rule_format]) simp
        with 2 show ?thesis by (simp add: nth)
      next
        case 3
        with c aj have "?K ns j \<le> ?K ns q" by (intro Suc.prems(4) [rule_format]) simp
        with 3 show ?thesis by (simp add: nth)
      next
        case 4
        with c aj have "?K ns (Suc j) \<le> ?K ns q" by (intro Suc.prems(4) [rule_format]) simp
        with 4 show ?thesis by (simp add: nth)
      next
        case 5
        with a b c have "?K ns p \<le> ?K ns q" by (intro Suc.prems(4) [rule_format]) simp
        with 5 show ?thesis by (simp add: nth)
      next
        case 6
        with a b c have "?K ns p \<le> ?K ns q" by (intro Suc.prems(4) [rule_format]) simp
        with 6 b show ?thesis by (simp add: nth)
      qed
    qed
    from Suc.IH [of ?es ?ns] Suc.prems(1,2,3) inv
    obtain ns' es' where r: "insertion_steps fmt [?ns, ?es] a j = [ns', es']"
      and s: "\<forall>p q. a \<le> p \<and> p < q \<and> q \<le> i \<longrightarrow> ?K ns' p \<le> ?K ns' q"
      and o: "\<forall>p. i < p \<longrightarrow> ns' ! p = ?ns ! p"
      by auto
    have "\<forall>p. i < p \<longrightarrow> ns' ! p = ns ! p" using o ji by (auto simp: nth)
    with step r s show ?thesis by simp
  qed
qed

lemma insertion_loop_stop: "\<not> i < b \<Longrightarrow> insertion_loop fmt c a b i = c"
  by (subst insertion_loop.simps) simp

lemma insertion_loop_step:
  "i < b \<Longrightarrow>
     insertion_loop fmt c a b i = insertion_loop fmt (insertion_steps fmt c a i) a b (i + 1)"
  by (subst insertion_loop.simps) simp

lemma insertion_loop_props:
  assumes "length es = length ns" and "b \<le> length ns"
    and "\<forall>p q. a \<le> p \<and> p < q \<and> q < i \<longrightarrow> key_text fmt (ns ! p) \<le> key_text fmt (ns ! q)"
  shows "\<exists>ns' es'. insertion_loop fmt [ns, es] a b i = [ns', es'] \<and>
     co_permuted ns es ns' es' \<and>
     (\<forall>k. filter (\<lambda>x. key_text fmt (fst x) = k) (zip ns' es') =
          filter (\<lambda>x. key_text fmt (fst x) = k) (zip ns es)) \<and>
     (\<forall>p q. a \<le> p \<and> p < q \<and> q < b \<longrightarrow> key_text fmt (ns' ! p) \<le> key_text fmt (ns' ! q))"
  using assms
proof (induction "b - i" arbitrary: ns es i)
  case 0
  then have stop: "insertion_loop fmt [ns, es] a b i = [ns, es]"
    by (simp add: insertion_loop_stop)
  have "key_text fmt (ns ! p) \<le> key_text fmt (ns ! q)" if "a \<le> p \<and> p < q \<and> q < b" for p q
    using "0.prems"(3) [rule_format, of p q] that "0.hyps" by simp
  with stop "0.prems"(1) show ?case by (auto simp: co_permuted_refl)
next
  case (Suc d)
  then have ib: "i < b" and il: "i < length ns" by simp_all
  have inv: "\<forall>p q. a \<le> p \<and> p < q \<and> q \<le> i \<and> q \<noteq> i \<longrightarrow>
      key_text fmt (ns ! p) \<le> key_text fmt (ns ! q)"
    using Suc.prems(3) by auto
  from insertion_steps_sorts [OF Suc.prems(1) il order_refl inv]
  obtain ns1 es1 where r1: "insertion_steps fmt [ns, es] a i = [ns1, es1]"
    and s1: "\<forall>p q. a \<le> p \<and> p < q \<and> q \<le> i \<longrightarrow> key_text fmt (ns1 ! p) \<le> key_text fmt (ns1 ! q)"
    by blast
  from insertion_steps_keeps [OF Suc.prems(1) il, where fmt = fmt and a = a] r1
  have cp1: "co_permuted ns es ns1 es1"
    and st1: "\<forall>k. filter (\<lambda>x. key_text fmt (fst x) = k) (zip ns1 es1) =
          filter (\<lambda>x. key_text fmt (fst x) = k) (zip ns es)"
    by simp_all
  have len1: "length es1 = length ns1" "b \<le> length ns1"
    using cp1 Suc.prems(2) by (simp_all add: co_permuted_def)
  have pre1: "\<forall>p q. a \<le> p \<and> p < q \<and> q < i + 1 \<longrightarrow>
      key_text fmt (ns1 ! p) \<le> key_text fmt (ns1 ! q)"
    using s1 by auto
  have d: "d = b - (i + 1)" using Suc.hyps(2) by simp
  from Suc.hyps(1) [OF d len1 pre1]
  obtain ns' es' where r: "insertion_loop fmt [ns1, es1] a b (i + 1) = [ns', es']"
    and cp: "co_permuted ns1 es1 ns' es'"
    and st: "\<forall>k. filter (\<lambda>x. key_text fmt (fst x) = k) (zip ns' es') =
          filter (\<lambda>x. key_text fmt (fst x) = k) (zip ns1 es1)"
    and so: "\<forall>p q. a \<le> p \<and> p < q \<and> q < b \<longrightarrow> key_text fmt (ns' ! p) \<le> key_text fmt (ns' ! q)"
    by blast
  have "insertion_loop fmt [ns, es] a b i = [ns', es']"
    using ib r1 r by (simp add: insertion_loop_step)
  with co_permuted_trans [OF cp1 cp] st st1 so show ?case by simp
qed

lemma sort_Stable_props:
  assumes "length es = length ns"
  shows "\<exists>ns' es'. sort_Stable fmt [ns, es] = [ns', es'] \<and>
     co_permuted ns es ns' es' \<and>
     sorted_wrt (\<lambda>x y. \<not> string_less (key_text fmt y) (key_text fmt x)) ns' \<and>
     (\<forall>k. filter (\<lambda>x. key_text fmt (fst x) = k) (zip ns' es') =
          filter (\<lambda>x. key_text fmt (fst x) = k) (zip ns es))"
proof -
  have pre: "\<forall>p q. 0 \<le> p \<and> p < q \<and> q < 0 + 1 \<longrightarrow>
      key_text fmt (ns ! p) \<le> key_text fmt (ns ! q)"
    by simp
  from insertion_loop_props [OF assms order_refl pre]
  obtain ns' es' where r: "insertion_loop fmt [ns, es] 0 (length ns) (0 + 1) = [ns', es']"
    and cp: "co_permuted ns es ns' es'"
    and st: "\<forall>k. filter (\<lambda>x. key_text fmt (fst x) = k) (zip ns' es') =
          filter (\<lambda>x. key_text fmt (fst x) = k) (zip ns es)"
    and so: "\<forall>p q. 0 \<le> p \<and> p < q \<and> q < length ns \<longrightarrow>
          key_text fmt (ns' ! p) \<le> key_text fmt (ns' ! q)"
    by blast
  have len: "length ns' = length ns" using cp by (simp add: co_permuted_def)
  have "sorted_wrt (\<lambda>x y. \<not> string_less (key_text fmt y) (key_text fmt x)) ns'"
    unfolding sorted_wrt_iff_nth_less using so len by (auto simp: string_less_iff not_less)
  moreover have "sort_Stable fmt [ns, es] = [ns', es']"
    using r by (simp add: sort_Stable_def insertionSort_def Len_def)
  ultimately show ?thesis using cp st by blast
qed

text \<open>
  A list has one arrangement only that is ascending by a key and keeps, for every key,
  the elements of that key in their order: the result of any stable sort is this one.
\<close>

lemma stable_order_unique:
  fixes f :: "'a \<Rightarrow> string"
  assumes ys: "sorted (map f ys)" and zs: "sorted (map f zs)"
    and same: "\<forall>k. filter (\<lambda>x. f x = k) ys = filter (\<lambda>x. f x = k) zs"
  shows "ys = zs"
proof -
  have m: "mset ys = mset zs"
  proof (rule multiset_eqI)
    fix x
    have "count (mset ys) x = count (mset (filter (\<lambda>y. f y = f x) ys)) x"
      by simp
    also have "\<dots> = count (mset (filter (\<lambda>y. f y = f x) zs)) x"
      using same by simp
    also have "\<dots> = count (mset zs) x" by simp
    finally show "count (mset ys) x = count (mset zs) x" .
  qed
  have flip: "filter (\<lambda>x. f k = f x) xs = filter (\<lambda>x. f x = f k) xs" for k and xs :: "'a list"
    by (rule filter_cong) auto
  have "sort_key f zs = ys"
    by (rule properties_for_sort_key [OF m _ ys]) (simp add: flip same)
  moreover have "sort_key f zs = zs"
    by (rule properties_for_sort_key [OF refl _ zs]) simp
  ultimately show ?thesis by simp
qed

lemma sorted_key_text:
  "sorted_wrt (\<lambda>x y. \<not> string_less (key_text fmt y) (key_text fmt x)) ns \<Longrightarrow>
   length es = length ns \<Longrightarrow> sorted (map (\<lambda>x. key_text fmt (fst x)) (zip ns es))"
  by (simp add: sorted_map sorted_wrt_iff_nth_less string_less_iff not_less)

lemma sort_Stable_unique:
  assumes len: "length es = length ns" and len': "length es' = length ns'"
    and so: "sorted_wrt (\<lambda>x y. \<not> string_less (key_text fmt y) (key_text fmt x)) ns'"
    and st: "\<forall>k. filter (\<lambda>x. key_text fmt (fst x) = k) (zip ns' es') =
                 filter (\<lambda>x. key_text fmt (fst x) = k) (zip ns es)"
  shows "sort_Stable fmt [ns, es] = [ns', es']"
proof -
  from sort_Stable_props [OF len, of fmt]
  obtain ms ds where s: "sort_Stable fmt [ns, es] = [ms, ds]"
    and cp: "co_permuted ns es ms ds"
    and so1: "sorted_wrt (\<lambda>x y. \<not> string_less (key_text fmt y) (key_text fmt x)) ms"
    and st1: "\<forall>k. filter (\<lambda>x. key_text fmt (fst x) = k) (zip ms ds) =
          filter (\<lambda>x. key_text fmt (fst x) = k) (zip ns es)"
    by blast
  have l1: "length ds = length ms" using cp by (simp add: co_permuted_def)
  have "zip ms ds = zip ns' es'"
    by (rule stable_order_unique [where f = "\<lambda>x. key_text fmt (fst x)"])
      (simp_all add: sorted_key_text so so1 l1 len' st st1)
  then have "map fst (zip ms ds) = map fst (zip ns' es')" "map snd (zip ms ds) = map snd (zip ns' es')"
    by simp_all
  then have "ms = ns'" "ds = es'" using l1 len' by simp_all
  with s show ?thesis by simp
qed

subsection \<open>The traversal\<close>

lemma traversal_data_length:
  "traversal_data nodes edges = Some (ns, es) \<Longrightarrow> length es = length ns"
  by (induction nodes edges arbitrary: ns es rule: traversal_data.induct)
    (auto split: option.splits)

lemma unsorted_data_length:
  "unsorted_data nodes edges = Some (ns, es) \<Longrightarrow> length es = length ns"
  by (auto simp: unsorted_data_def dest: traversal_data_length split: option.splits)

lemma HandleGET_traversal_ok:
  fixes GM :: "'v graph_manager"
  assumes run: "HandleGET fmt maxAlloc GM r [part, ''n'', kind, key, spec] = Responded resp"
    and ok: "status resp = StatusOK"
  shows "\<exists>nodes edges ns es.
     TraverseMulti GM part key kind spec True = Inr (nodes, edges) \<and>
     unsorted_data nodes edges = Some (ns, es) \<and>
     body resp = Json (JArray (map (\<lambda>l. JArray (map JObject l)) (sort_Stable fmt [ns, es])))"
proof -
  have t: "HandleGET fmt maxAlloc GM r [part, ''n'', kind, key, spec] =
      HandleGET_traversal fmt GM [part, ''n'', kind, key, spec]"
    by (simp add: HandleGET_def checkResources_def)
  obtain nodes edges where tm: "TraverseMulti GM part key kind spec True = Inr (nodes, edges)"
    and fp: "\<exists>node. FetchNodePart GM part key kind [''key'', ''kind''] = Inr (Some node)"
  proof (cases "FetchNodePart GM part key kind [''key'', ''kind'']")
    case (Inl e)
    then have "resp = http_Error e StatusInternalServerError"
      using run unfolding t by (simp add: HandleGET_traversal_def)
    with ok show ?thesis by simp
  next
    case (Inr no)
    show ?thesis
    proof (cases no)
      case None
      with Inr have "resp = http_Error ''Unknown partition or node kind'' StatusBadRequest"
        using run unfolding t by (simp add: HandleGET_traversal_def)
      with ok show ?thesis by simp
    next
      case (Some node)
      show ?thesis
      proof (cases "TraverseMulti GM part key kind spec True")
        case (Inl e)
        then have "resp = http_Error e StatusInternalServerError"
          using run Inr Some unfolding t by (simp add: HandleGET_traversal_def)
        with ok show ?thesis by simp
      next
        case tm: (Inr ne)
        obtain nodes edges where "ne = (nodes, edges)" by (cases ne)
        with tm Inr Some that show ?thesis by simp
      qed
    qed
  qed
  from fp obtain node where fp': "FetchNodePart GM part key kind [''key'', ''kind''] =
      Inr (Some node)" by blast
  show ?thesis
  proof (cases "unsorted_data nodes edges")
    case None
    then have "HandleGET_traversal fmt GM [part, ''n'', kind, key, spec] = Panicked"
      by (simp add: HandleGET_traversal_def fp' tm)
    with run t show ?thesis by simp
  next
    case (Some d)
    obtain ns es where d: "d = (ns, es)" by (cases d)
    have "resp = \<lparr>status = StatusOK,
        headers = [(''content-type'', ''application/json; charset=utf-8'')],
        body = Json (JArray (map (\<lambda>l. JArray (map JObject l)) (sort_Stable fmt [ns, es])))\<rparr>"
      using run unfolding t by (simp add: HandleGET_traversal_def fp' tm Some d Let_def)
    then have "body resp =
        Json (JArray (map (\<lambda>l. JArray (map JObject l)) (sort_Stable fmt [ns, es])))"
      by simp
    with tm Some d show ?thesis by blast
  qed
qed

lemma example_traverse:
  "TraverseMulti example_GM ''main'' ''1'' ''Person'' spec True =
     Inr (Some [person ''b'', person ''a''], Some [follows ''1b'', follows ''1a''])"
  by (simp add: example_GM_def)

lemma example_unsorted:
  "unsorted_data (Some [person ''b'', person ''a'']) (Some [follows ''1b'', follows ''1a'']) =
     Some ([Data (person ''b''), Data (person ''a'')],
           [EdgeData (follows ''1b''), EdgeData (follows ''1a'')])"
  by (simp add: unsorted_data_def)

lemma example_keys:
  "key_text Sprint_string (Data (person k)) = k"
  by (simp add: key_text_def Sprintf_v_def NodeKey_def person_def Sprint_string_def)

lemma example_sort:
  "sort_Stable Sprint_string
     [[Data (person ''b''), Data (person ''a'')],
      [EdgeData (follows ''1b''), EdgeData (follows ''1a'')]] =
     [[Data (person ''a''), Data (person ''b'')],
      [EdgeData (follows ''1a''), EdgeData (follows ''1b'')]]"
proof -
  let ?c = "[[Data (person ''b''), Data (person ''a'')],
      [EdgeData (follows ''1b''), EdgeData (follows ''1a'')]]"
  let ?d = "[[Data (person ''a''), Data (person ''b'')],
      [EdgeData (follows ''1a''), EdgeData (follows ''1b'')]]"
  have less: "Less Sprint_string ?c (Suc 0) (Suc 0 - 1)"
    by (simp add: Less_pair example_keys)
  have sw: "Swap ?c (Suc 0) (Suc 0 - 1) = ?d"
    by (simp add: Swap_pair)
  have "insertion_steps Sprint_string ?c 0 (Suc 0) =
      insertion_steps Sprint_string (Swap ?c (Suc 0) (Suc 0 - 1)) 0 (Suc 0 - 1)"
    using less by (intro insertion_steps_step) simp_all
  also have "\<dots> = ?d"
    unfolding sw by (simp add: insertion_steps_stop)
  finally have st: "insertion_steps Sprint_string ?c 0 (Suc 0) = ?d" .
  have "insertion_loop Sprint_string ?c 0 (Suc (Suc 0)) (Suc 0) =
      insertion_loop Sprint_string (insertion_steps Sprint_string ?c 0 (Suc 0)) 0 (Suc (Suc 0))
        (Suc 0 + 1)"
    by (intro insertion_loop_step) simp
  also have "\<dots> = ?d"
    unfolding st by (simp add: insertion_loop_stop)
  finally show ?thesis by (simp add: sort_Stable_def insertionSort_def Len_def)
qed

lemma example_traversal:
  "HandleGET Sprint_string (2 ^ 48) example_GM (example_request NotGiven NotGiven)
     [''main'', ''n'', ''Person'', ''1'', ''Follows''] = Responded traversal_a_b"
proof -
  have fp: "FetchNodePart example_GM ''main'' ''1'' ''Person'' [''key'', ''kind''] =
      Inr (Some (person ''1''))"
    by (simp add: example_GM_def)
  show ?thesis
    by (simp add: HandleGET_def checkResources_def HandleGET_traversal_def fp example_traverse
        example_unsorted example_sort traversal_a_b_def)
qed

subsection \<open>The order of a traversal result\<close>

text \<open>
  C2. In every traversal result, the sort has applied one index permutation to the list
  of nodes and to the list of edges: there is a bijection \<open>p\<close> on the indices such that
  the node and the edge at index \<open>i\<close> after the sort are the node and the edge at index
  \<open>p i\<close> before it. Whatever sequence of calls of \<open>Swap\<close> a sort makes, the two lists are
  permuted together, so the edges are never reordered on their own. When the traversal
  returns no nodes (or a nil list), the result is the two empty lists.
\<close>

theorem traversal_sort_pairing:
  fixes GM :: "'v graph_manager"
  assumes run: "HandleGET fmt maxAlloc GM r [part, ''n'', kind, key, spec] = Responded resp"
    and ok: "status resp = StatusOK"
    and tm: "TraverseMulti GM part key kind spec True = Inr (nodes, edges)"
  shows "(\<exists>ns es ns' es' p.
            unsorted_data nodes edges = Some (ns, es) \<and> length es = length ns \<and>
            body resp = Json (JArray [JArray (map JObject ns'), JArray (map JObject es')]) \<and>
            length ns' = length ns \<and> length es' = length ns \<and>
            bij_betw p {..<length ns} {..<length ns} \<and>
            (\<forall>i<length ns. ns' ! i = ns ! p i \<and> es' ! i = es ! p i) \<and>
            (nodes = None \<or> edges = None \<or> nodes = Some [] \<longrightarrow> ns' = [] \<and> es' = [])) \<and>
         (\<forall>(ms :: 'v attrs list) ds sw.
            length ds = length ms \<and> (\<forall>(i, j) \<in> set sw. i < length ms \<and> j < length ms) \<longrightarrow>
            (\<exists>ms' ds'. swaps [ms, ds] sw = [ms', ds'] \<and> co_permuted ms ds ms' ds'))"
proof (intro conjI allI impI)
  from HandleGET_traversal_ok [OF run ok] tm
  obtain ns es where ud: "unsorted_data nodes edges = Some (ns, es)"
    and body: "body resp =
      Json (JArray (map (\<lambda>l. JArray (map JObject l)) (sort_Stable fmt [ns, es])))"
    by auto
  have len: "length es = length ns" using ud by (rule unsorted_data_length)
  from sort_Stable_props [OF len, of fmt]
  obtain ns' es' where s: "sort_Stable fmt [ns, es] = [ns', es']"
    and cp: "co_permuted ns es ns' es'"
    by blast
  from cp obtain p where l: "length ns' = length ns" "length es' = length ns"
    and p: "bij_betw p {..<length ns} {..<length ns}"
    and pp: "\<forall>i<length ns. ns' ! i = ns ! p i \<and> es' ! i = es ! p i"
    unfolding co_permuted_def by blast
  have empty: "ns' = [] \<and> es' = []" if "nodes = None \<or> edges = None \<or> nodes = Some []"
  proof -
    from that have "unsorted_data nodes edges = Some ([], [])"
      by (auto simp: unsorted_data_def split: option.splits)
    with ud have "ns = []" by simp
    with l show ?thesis by simp
  qed
  have b: "body resp = Json (JArray [JArray (map JObject ns'), JArray (map JObject es')])"
    using body s by simp
  from ud len b l p pp empty
  show "\<exists>ns es ns' es' p.
            unsorted_data nodes edges = Some (ns, es) \<and> length es = length ns \<and>
            body resp = Json (JArray [JArray (map JObject ns'), JArray (map JObject es')]) \<and>
            length ns' = length ns \<and> length es' = length ns \<and>
            bij_betw p {..<length ns} {..<length ns} \<and>
            (\<forall>i<length ns. ns' ! i = ns ! p i \<and> es' ! i = es ! p i) \<and>
            (nodes = None \<or> edges = None \<or> nodes = Some [] \<longrightarrow> ns' = [] \<and> es' = [])"
    by blast
next
  fix ms :: "'v attrs list" and ds :: "'v attrs list" and sw
  assume "length ds = length ms \<and> (\<forall>(i, j) \<in> set sw. i < length ms \<and> j < length ms)"
  then show "\<exists>ms' ds'. swaps [ms, ds] sw = [ms', ds'] \<and> co_permuted ms ds ms' ds'"
    using swaps_co_permuted [of ds ms sw] by blast
qed

theorem traversal_sort_pairing_witness:
  "HandleGET Sprint_string (2 ^ 48) example_GM (example_request NotGiven NotGiven)
     [''main'', ''n'', ''Person'', ''1'', ''Follows''] = Responded traversal_a_b \<and>
   (\<exists>ns' es' p.
      body traversal_a_b = Json (JArray [JArray (map JObject ns'), JArray (map JObject es')]) \<and>
      bij_betw p {..<2} {..<2} \<and>
      (\<forall>i<2. ns' ! i = [Data (person ''b''), Data (person ''a'')] ! p i \<and>
         es' ! i = [EdgeData (follows ''1b''), EdgeData (follows ''1a'')] ! p i))"
proof -
  have ok: "status traversal_a_b = StatusOK" by (simp add: traversal_a_b_def)
  from traversal_sort_pairing [OF example_traversal ok example_traverse]
  obtain ns es ns' es' p where
    "unsorted_data (Some [person ''b'', person ''a'']) (Some [follows ''1b'', follows ''1a'']) =
       Some (ns, es)"
    and b: "body traversal_a_b = Json (JArray [JArray (map JObject ns'), JArray (map JObject es')])"
    and p: "bij_betw p {..<length ns} {..<length ns}"
    and pp: "\<forall>i<length ns. ns' ! i = ns ! p i \<and> es' ! i = es ! p i"
    by blast
  then have ns: "ns = [Data (person ''b''), Data (person ''a'')]"
    and es: "es = [EdgeData (follows ''1b''), EdgeData (follows ''1a'')]"
    by (simp_all add: example_unsorted)
  have l2: "length ns = 2" by (simp add: ns)
  from b p [unfolded l2] pp [unfolded l2, unfolded ns es] example_traversal
  show ?thesis by blast
qed

text \<open>
  C5. In every traversal result, the nodes are in ascending order of the text of their
  keys, compared as strings (byte by byte, a proper prefix first), and the sort is stable:
  for every key, the nodes of that key, each with its edge, are in the order they had
  before the sort. The result is the only arrangement of the nodes and edges with these
  two properties.
\<close>

theorem traversal_sort_stable:
  fixes GM :: "'v graph_manager"
  assumes run: "HandleGET fmt maxAlloc GM r [part, ''n'', kind, key, spec] = Responded resp"
    and ok: "status resp = StatusOK"
    and tm: "TraverseMulti GM part key kind spec True = Inr (nodes, edges)"
  shows "\<exists>ns es ns' es'.
           unsorted_data nodes edges = Some (ns, es) \<and>
           body resp = Json (JArray [JArray (map JObject ns'), JArray (map JObject es')]) \<and>
           length es' = length ns' \<and>
           sorted_wrt (\<lambda>x y. \<not> string_less (key_text fmt y) (key_text fmt x)) ns' \<and>
           sorted_wrt
             (\<lambda>x y. key_text fmt x = key_text fmt y \<or>
                string_less (key_text fmt x) (key_text fmt y)) ns' \<and>
           (\<forall>k. filter (\<lambda>x. key_text fmt (fst x) = k) (zip ns' es') =
                filter (\<lambda>x. key_text fmt (fst x) = k) (zip ns es)) \<and>
           (\<forall>ms ds.
              length ds = length ms \<and>
              sorted_wrt (\<lambda>x y. \<not> string_less (key_text fmt y) (key_text fmt x)) ms \<and>
              (\<forall>k. filter (\<lambda>x. key_text fmt (fst x) = k) (zip ms ds) =
                   filter (\<lambda>x. key_text fmt (fst x) = k) (zip ns es)) \<longrightarrow>
              ms = ns' \<and> ds = es')"
proof -
  from HandleGET_traversal_ok [OF run ok] tm
  obtain ns es where ud: "unsorted_data nodes edges = Some (ns, es)"
    and body: "body resp =
      Json (JArray (map (\<lambda>l. JArray (map JObject l)) (sort_Stable fmt [ns, es])))"
    by auto
  have len: "length es = length ns" using ud by (rule unsorted_data_length)
  from sort_Stable_props [OF len, of fmt]
  obtain ns' es' where s: "sort_Stable fmt [ns, es] = [ns', es']"
    and cp: "co_permuted ns es ns' es'"
    and so: "sorted_wrt (\<lambda>x y. \<not> string_less (key_text fmt y) (key_text fmt x)) ns'"
    and st: "\<forall>k. filter (\<lambda>x. key_text fmt (fst x) = k) (zip ns' es') =
          filter (\<lambda>x. key_text fmt (fst x) = k) (zip ns es)"
    by blast
  have l: "length es' = length ns'" using cp by (simp add: co_permuted_def)
  have asc: "sorted_wrt
      (\<lambda>x y. key_text fmt x = key_text fmt y \<or> string_less (key_text fmt x) (key_text fmt y)) ns'"
    using so by (rule sorted_wrt_mono_rel [rotated]) (auto simp: string_less_iff)
  have b: "body resp = Json (JArray [JArray (map JObject ns'), JArray (map JObject es')])"
    using body s by simp
  have only: "ms = ns' \<and> ds = es'"
    if "length ds = length ms \<and>
        sorted_wrt (\<lambda>x y. \<not> string_less (key_text fmt y) (key_text fmt x)) ms \<and>
        (\<forall>k. filter (\<lambda>x. key_text fmt (fst x) = k) (zip ms ds) =
             filter (\<lambda>x. key_text fmt (fst x) = k) (zip ns es))" for ms ds
  proof -
    from that have "sort_Stable fmt [ns, es] = [ms, ds]"
      by (intro sort_Stable_unique [OF len]) simp_all
    with s show ?thesis by simp
  qed
  from ud b l so asc st only show ?thesis by blast
qed

theorem traversal_sort_stable_witness:
  "HandleGET Sprint_string (2 ^ 48) example_GM (example_request NotGiven NotGiven)
     [''main'', ''n'', ''Person'', ''1'', ''Follows''] = Responded traversal_a_b \<and>
   (\<exists>ns' es'.
      body traversal_a_b = Json (JArray [JArray (map JObject ns'), JArray (map JObject es')]) \<and>
      sorted_wrt
        (\<lambda>x y. \<not> string_less (key_text Sprint_string y) (key_text Sprint_string x)) ns' \<and>
      (\<forall>k. filter (\<lambda>x. key_text Sprint_string (fst x) = k) (zip ns' es') =
           filter (\<lambda>x. key_text Sprint_string (fst x) = k)
             (zip [Data (person ''b''), Data (person ''a'')]
                [EdgeData (follows ''1b''), EdgeData (follows ''1a'')])))"
proof -
  have ok: "status traversal_a_b = StatusOK" by (simp add: traversal_a_b_def)
  from traversal_sort_stable [OF example_traversal ok example_traverse]
  obtain ns es ns' es' where
    u: "unsorted_data (Some [person ''b'', person ''a'']) (Some [follows ''1b'', follows ''1a'']) =
       Some (ns, es)"
    and b: "body traversal_a_b = Json (JArray [JArray (map JObject ns'), JArray (map JObject es')])"
    and so: "sorted_wrt
        (\<lambda>x y. \<not> string_less (key_text Sprint_string y) (key_text Sprint_string x)) ns'"
    and st: "\<forall>k. filter (\<lambda>x. key_text Sprint_string (fst x) = k) (zip ns' es') =
           filter (\<lambda>x. key_text Sprint_string (fst x) = k) (zip ns es)"
    by blast
  from u have ns: "ns = [Data (person ''b''), Data (person ''a'')]"
    and es: "es = [EdgeData (follows ''1b''), EdgeData (follows ''1a'')]"
    by (simp_all add: example_unsorted)
  from b so st example_traversal show ?thesis unfolding ns es by blast
qed

end
